theory Spec2Isabelle
  imports Main
begin

section \<open>The itertools package of go-utils\<close>

text \<open>
  A shallow embedding of \<^verbatim>\<open>itertools/itertools.go\<close>, of the \<^verbatim>\<open>ChunkResult\<close>
  struct and of the two prefix/suffix functions of the earlier draft of the package.
  A Go slice is a list; a \<^verbatim>\<open>range\<close> loop is a recursion over the list that
  threads the variables the loop updates; an index loop is a recursion over the index.
  A slice holds fewer than \<open>2 ^ 63\<close> elements, so loop indices and \<^verbatim>\<open>len\<close> are
  natural numbers where the code only counts up to \<^verbatim>\<open>len\<close>. The arithmetic of
  \<^verbatim>\<open>Chunk\<close> and \<^verbatim>\<open>Flatten\<close> is on Go's \<^verbatim>\<open>int\<close> (64 bits, two's complement,
  silent wrap-around); it is modelled on \<open>int\<close> with the wrap-around written out.
  What the platform and the type arguments decide is a parameter: the longest slice the
  runtime allocates, and \<^verbatim>\<open>==\<close> and hashing on the keys of \<^verbatim>\<open>GroupBy\<close>.
\<close>

subsection \<open>Go's int\<close>

definition max_int :: int where
  "max_int = 2 ^ 63 - 1"

definition min_int :: int where
  "min_int = - (2 ^ 63)"

text \<open>The value a 64-bit two's complement register holds for the mathematical result \<open>x\<close>.\<close>

definition wrap64 :: "int \<Rightarrow> int" where
  "wrap64 x = (x + 2 ^ 63) mod 2 ^ 64 - 2 ^ 63"

text \<open>Go's \<^verbatim>\<open>/\<close> and \<^verbatim>\<open>%\<close> truncate towards zero (used with a non-zero divisor only).\<close>

definition go_quo :: "int \<Rightarrow> int \<Rightarrow> int" where
  "go_quo a b = wrap64 (sgn a * sgn b * (\<bar>a\<bar> div \<bar>b\<bar>))"

definition go_rem :: "int \<Rightarrow> int \<Rightarrow> int" where
  "go_rem a b = sgn a * (\<bar>a\<bar> mod \<bar>b\<bar>)"

subsection \<open>Failures\<close>

text \<open>
  \<open>InvalidArgument msg\<close> is the error value \<^verbatim>\<open>Chunk\<close> returns (built by
  \<^verbatim>\<open>fmt.Errorf\<close>, \<open>msg\<close> its text). \<open>RuntimePanic\<close> is a panic of the Go runtime
  (\<^verbatim>\<open>makeslice: len out of range\<close>, \<^verbatim>\<open>growslice: len out of range\<close>,
  \<^verbatim>\<open>slice bounds out of range\<close>, \<^verbatim>\<open>hash of unhashable type\<close>): the call does not
  return.
\<close>

datatype fault = InvalidArgument string | RuntimePanic

subsection \<open>Allocation\<close>

text \<open>
  \<^verbatim>\<open>make\<close> and a growing \<^verbatim>\<open>append\<close> panic when the requested length or capacity is
  negative or is more than the runtime allocates for the element type. That bound, in
  elements, depends on the platform, on the size of an element and on the memory left, so
  it is a parameter \<open>maxLen\<close> of the functions that allocate by a computed count. (On
  linux/amd64 the runtime refuses more than \<open>2 ^ 48\<close> bytes; elements of size zero are
  bounded by the largest \<^verbatim>\<open>int\<close> only.)
\<close>

definition alloc_fails :: "nat \<Rightarrow> int \<Rightarrow> bool" where
  "alloc_fails maxLen n = (n < 0 \<or> int maxLen < n)"


text \<open>The verb \<^verbatim>\<open>%d\<close> of \<^verbatim>\<open>fmt\<close>: decimal digits, a leading minus sign when negative.\<close>

definition digit_char :: "nat \<Rightarrow> char" where
  "digit_char n = char_of (48 + n)"

fun digits :: "nat \<Rightarrow> string" where
  "digits n = (if n < 10 then [digit_char n] else digits (n div 10) @ [digit_char (n mod 10)])"

definition fmt_d :: "int \<Rightarrow> string" where
  "fmt_d k = (if k < 0 then CHR ''-'' # digits (nat (- k)) else digits (nat k))"

subsection \<open>Scans: Count, All, Any\<close>

fun Count_loop :: "'a list \<Rightarrow> 'a \<Rightarrow> int \<Rightarrow> int" where
  "Count_loop [] elt occurence = occurence"
| "Count_loop (item # rest) elt occurence =
     Count_loop rest elt (if elt = item then occurence + 1 else occurence)"

definition Count :: "'a list \<Rightarrow> 'a \<Rightarrow> int" where
  "Count iterable elt = Count_loop iterable elt 0"

fun All_slice :: "'a list \<Rightarrow> ('a \<Rightarrow> bool) \<Rightarrow> bool" where
  "All_slice [] predicate = True"
| "All_slice (elt # rest) predicate =
     (if \<not> predicate elt then False else All_slice rest predicate)"

fun Any :: "'a list \<Rightarrow> ('a \<Rightarrow> bool) \<Rightarrow> bool" where
  "Any [] predicate = False"
| "Any (elt # rest) predicate =
     (if predicate elt then True else Any rest predicate)"

subsection \<open>TakeWhile and SkipWhile\<close>

text \<open>
  The loop of \<^verbatim>\<open>TakeWhile\<close>, from a given initial \<^verbatim>\<open>result\<close> buffer:
  \<^verbatim>\<open>append\<close> while the predicate holds, \<^verbatim>\<open>break\<close> at the first element where it fails.
\<close>

fun TakeWhile_loop :: "'a list \<Rightarrow> ('a \<Rightarrow> bool) \<Rightarrow> 'a list \<Rightarrow> 'a list" where
  "TakeWhile_loop [] predicate result = result"
| "TakeWhile_loop (element # rest) predicate result =
     (if predicate element then TakeWhile_loop rest predicate (result @ [element])
      else result)"

text \<open>\<^verbatim>\<open>result := make([]T, 0)\<close>: the buffer starts empty.\<close>

definition TakeWhile :: "'a list \<Rightarrow> ('a \<Rightarrow> bool) \<Rightarrow> 'a list" where
  "TakeWhile iterable predicate = TakeWhile_loop iterable predicate []"

text \<open>
  The index loop of \<^verbatim>\<open>SkipWhile\<close>: at the first \<open>i\<close> whose element fails the
  predicate, return a copy of \<^verbatim>\<open>iterable[i:]\<close>; past the end, the empty slice.
\<close>

function SkipWhile_loop :: "'a list \<Rightarrow> ('a \<Rightarrow> bool) \<Rightarrow> nat \<Rightarrow> 'a list" where
  "SkipWhile_loop iterable predicate i =
     (if i < length iterable then
        (if \<not> predicate (iterable ! i) then [] @ drop i iterable
         else SkipWhile_loop iterable predicate (Suc i))
      else [])"
  by pat_completeness auto
termination
  by (relation "measure (\<lambda>(iterable, predicate, i). length iterable - i)") auto

definition SkipWhile :: "'a list \<Rightarrow> ('a \<Rightarrow> bool) \<Rightarrow> 'a list" where
  "SkipWhile iterable predicate = SkipWhile_loop iterable predicate 0"

subsection \<open>The draft versions of TakeWhile and DropWhile\<close>

text \<open>
  The draft allocates \<^verbatim>\<open>result := make([]T, 1)\<close>: one element holding the zero value
  of \<open>T\<close>, here the parameter \<open>zero\<close>. The draft's \<^verbatim>\<open>TakeWhile\<close> then runs the same
  loop as the later one.
\<close>

definition TakeWhile_draft :: "'a \<Rightarrow> 'a list \<Rightarrow> ('a \<Rightarrow> bool) \<Rightarrow> 'a list" where
  "TakeWhile_draft zero iterable predicate = TakeWhile_loop iterable predicate [zero]"

text \<open>
  The draft's \<^verbatim>\<open>DropWhile\<close> stops at the first element that satisfies the predicate
  and appends \<^verbatim>\<open>iterable[i+1:]\<close>, the elements after it.
\<close>

function DropWhile_loop :: "'a list \<Rightarrow> ('a \<Rightarrow> bool) \<Rightarrow> nat \<Rightarrow> 'a list \<Rightarrow> 'a list" where
  "DropWhile_loop iterable predicate i result =
     (if i < length iterable then
        (if predicate (iterable ! i) then result @ drop (i + 1) iterable
         else DropWhile_loop iterable predicate (Suc i) result)
      else result)"
  by pat_completeness auto
termination
  by (relation "measure (\<lambda>(iterable, predicate, i, result). length iterable - i)") auto

definition DropWhile_draft :: "'a \<Rightarrow> 'a list \<Rightarrow> ('a \<Rightarrow> bool) \<Rightarrow> 'a list" where
  "DropWhile_draft zero iterable predicate = DropWhile_loop iterable predicate 0 [zero]"

text \<open>
  What the specification asks of the two operations, in its own words: the longest prefix
  whose elements all satisfy the predicate, and the suffix that starts at the first element
  which does not satisfy it (empty when there is none).
\<close>

definition spec_TakeWhile :: "'a list \<Rightarrow> ('a \<Rightarrow> bool) \<Rightarrow> 'a list" where
  "spec_TakeWhile s p = takeWhile p s"

definition spec_SkipWhile :: "'a list \<Rightarrow> ('a \<Rightarrow> bool) \<Rightarrow> 'a list" where
  "spec_SkipWhile s p = dropWhile p s"

subsection \<open>Map and Filter\<close>

fun Map_loop :: "'a list \<Rightarrow> ('a \<Rightarrow> 'b) \<Rightarrow> 'b list \<Rightarrow> 'b list" where
  "Map_loop [] transformFn result = result"
| "Map_loop (element # rest) transformFn result =
     Map_loop rest transformFn (result @ [transformFn element])"

definition Map :: "'a list \<Rightarrow> ('a \<Rightarrow> 'b) \<Rightarrow> 'b list" where
  "Map iterable transformFn = Map_loop iterable transformFn []"

fun Filter_loop :: "'a list \<Rightarrow> ('a \<Rightarrow> bool) \<Rightarrow> 'a list \<Rightarrow> 'a list" where
  "Filter_loop [] predicate result = result"
| "Filter_loop (element # rest) predicate result =
     Filter_loop rest predicate (if predicate element then result @ [element] else result)"

definition Filter :: "'a list \<Rightarrow> ('a \<Rightarrow> bool) \<Rightarrow> 'a list" where
  "Filter iterable predicate = Filter_loop iterable predicate []"

subsection \<open>Flatten\<close>

text \<open>The first loop: \<^verbatim>\<open>nElements += len(nestedIterable)\<close>, on Go's \<^verbatim>\<open>int\<close>.\<close>

fun Flatten_count :: "'a list list \<Rightarrow> int \<Rightarrow> int" where
  "Flatten_count [] nElements = nElements"
| "Flatten_count (nestedIterable # rest) nElements =
     Flatten_count rest (wrap64 (nElements + int (length nestedIterable)))"

text \<open>
  The second loop: \<^verbatim>\<open>flattened = append(flattened, nestedIterable...)\<close>. The new length
  is a sum on \<^verbatim>\<open>int\<close>; \<^verbatim>\<open>append\<close> panics when it has wrapped around or cannot be
  allocated.
\<close>

fun Flatten_loop :: "nat \<Rightarrow> 'a list list \<Rightarrow> 'a list \<Rightarrow> fault + 'a list" where
  "Flatten_loop maxLen [] flattened = Inr flattened"
| "Flatten_loop maxLen (nestedIterable # rest) flattened =
     (if alloc_fails maxLen (wrap64 (int (length flattened) + int (length nestedIterable)))
      then Inl RuntimePanic
      else Flatten_loop maxLen rest (flattened @ nestedIterable))"

text \<open>
  \<^verbatim>\<open>make([]T, 0, nElements)\<close> panics on a capacity that is negative or cannot be
  allocated; \<open>maxLen\<close> is the bound for slices of \<open>T\<close>.
\<close>

definition Flatten :: "nat \<Rightarrow> 'a list list \<Rightarrow> fault + 'a list" where
  "Flatten maxLen iterable =
     (let nElements = Flatten_count iterable 0
      in if alloc_fails maxLen nElements then Inl RuntimePanic
         else Flatten_loop maxLen iterable [])"

subsection \<open>Chunk\<close>

record 'a ChunkResult =
  Chunks :: "'a list list"
  ChunkSize :: int
  Total :: int
  Remainder :: int

text \<open>
  The slice expression \<^verbatim>\<open>iterable[start:end]\<close>: a panic unless
  \<open>0 \<le> start \<le> end \<le> cap\<close>. The capacity is taken to be the length; no slice
  expression of \<^verbatim>\<open>Chunk\<close> reaches past the length, as shown below.
\<close>

definition slice_expr :: "'a list \<Rightarrow> int \<Rightarrow> int \<Rightarrow> fault + 'a list" where
  "slice_expr iterable start stop =
     (if 0 \<le> start \<and> start \<le> stop \<and> stop \<le> int (length iterable)
      then Inr (take (nat (stop - start)) (drop (nat start) iterable))
      else Inl RuntimePanic)"

text \<open>
  The loop \<^verbatim>\<open>for i := 0; i < nBatches; i++\<close>, which stores chunk \<open>i\<close> at
  \<^verbatim>\<open>result[i]\<close> (a panic when the index is out of range). Inside the loop
  \<open>i < nBatches\<close>, so \<^verbatim>\<open>i++\<close> cannot wrap.
\<close>

function Chunk_loop ::
    "'a list \<Rightarrow> int \<Rightarrow> int \<Rightarrow> int \<Rightarrow> int \<Rightarrow> 'a list list \<Rightarrow> fault + 'a list list" where
  "Chunk_loop iterable sz nBatches remainder i result =
     (if i < nBatches then
        (let start = wrap64 (i * sz);
             end0 = wrap64 (start + sz);
             end1 = (if i = wrap64 (nBatches - 1) \<and> remainder > 0
                    then wrap64 (start + remainder) else end0)
         in case slice_expr iterable start end1 of
              Inl e \<Rightarrow> Inl e
            | Inr chunk \<Rightarrow>
                (if 0 \<le> i \<and> i < int (length result)
                 then Chunk_loop iterable sz nBatches remainder (i + 1) (result[nat i := chunk])
                 else Inl RuntimePanic))
      else Inr result)"
  by pat_completeness auto
termination
  by (relation "measure (\<lambda>(iterable, sz, nBatches, remainder, i, result). nat (nBatches - i))")
     auto

text \<open>
  \<^verbatim>\<open>Chunk\<close>: the guard on \<^verbatim>\<open>size\<close> (here \<open>sz\<close>), the number of batches by rounding up, the remainder,
  \<^verbatim>\<open>make([][]T, nBatches)\<close> (a panic when \<open>nBatches\<close> is negative or cannot be
  allocated, \<open>maxLen\<close> being the bound for slices of slices; otherwise \<open>nBatches\<close> nil
  slices), the loop, and the result record.
\<close>

definition Chunk :: "nat \<Rightarrow> 'a list \<Rightarrow> int \<Rightarrow> fault + 'a ChunkResult" where
  "Chunk maxLen iterable sz =
     (if sz \<le> 0 then
        Inl (InvalidArgument
               (fmt_d sz @ '' is not a valid chunk size, you must provide a positive integer''))
      else
        (let itemCount = int (length iterable);
             nBatches = go_quo (wrap64 (wrap64 (itemCount + sz) - 1)) sz;
             remainder = go_rem (int (length iterable)) sz
         in if alloc_fails maxLen nBatches then Inl RuntimePanic
            else
              (case Chunk_loop iterable sz nBatches remainder 0 (replicate (nat nBatches) []) of
                 Inl e \<Rightarrow> Inl e
               | Inr result \<Rightarrow>
                   Inr \<lparr>Chunks = result, ChunkSize = sz,
                        Total = int (length iterable), Remainder = remainder\<rparr>)))"

text \<open>
  The chunks as a list function: chunk \<open>j\<close> is the \<open>k\<close> elements from position
  \<open>j * k\<close>, fewer at the end of the list. The loop is compared with it below.
\<close>

definition chunks_of :: "'a list \<Rightarrow> nat \<Rightarrow> 'a list list" where
  "chunks_of s k = map (\<lambda>j. take k (drop (j * k) s)) [0..<(length s + k - 1) div k]"

subsection \<open>GroupBy\<close>

text \<open>
  \<^verbatim>\<open>TKey\<close> is any \<^verbatim>\<open>comparable\<close> type. Go's \<^verbatim>\<open>==\<close> on such a type is symmetric and
  transitive, but not always reflexive: a \<^verbatim>\<open>float64\<close> NaN is unequal to itself. An
  interface key that holds a value of an uncomparable type cannot be hashed, and every
  map access with it panics. Both are parameters of the model: \<open>eq\<close> is \<^verbatim>\<open>==\<close> on the
  keys, \<open>hashable\<close> tells which keys can be hashed.

  A map is the list of its entries. \<^verbatim>\<open>m[key]\<close> finds the entry whose key \<^verbatim>\<open>==\<close> the
  given one; \<^verbatim>\<open>m[key] = v\<close> overwrites that entry (the runtime stores the given key over
  the old one) or, when there is none, adds an entry. A key that is unequal to itself is
  never found, so every assignment with it adds an entry.
\<close>

fun map_lookup :: "('k \<Rightarrow> 'k \<Rightarrow> bool) \<Rightarrow> ('k \<times> 'v) list \<Rightarrow> 'k \<Rightarrow> 'v option" where
  "map_lookup eq [] key = None"
| "map_lookup eq ((k, v) # entries) key =
     (if eq k key then Some v else map_lookup eq entries key)"

fun map_assign :: "('k \<Rightarrow> 'k \<Rightarrow> bool) \<Rightarrow> ('k \<times> 'v) list \<Rightarrow> 'k \<Rightarrow> 'v \<Rightarrow> ('k \<times> 'v) list" where
  "map_assign eq [] key v = [(key, v)]"
| "map_assign eq ((k, w) # entries) key v =
     (if eq k key then (key, v) # entries else (k, w) # map_assign eq entries key v)"

text \<open>Reading \<^verbatim>\<open>result[key]\<close> gives the stored slice, or the nil slice when no entry is found.\<close>

definition map_read :: "('k \<Rightarrow> 'k \<Rightarrow> bool) \<Rightarrow> ('k \<times> 'v list) list \<Rightarrow> 'k \<Rightarrow> 'v list" where
  "map_read eq m key = (case map_lookup eq m key of None \<Rightarrow> [] | Some slice \<Rightarrow> slice)"

text \<open>
  The body of the loop, after \<^verbatim>\<open>key := keyFn(element)\<close>: create the empty group when the
  lookup finds none, then store the group read back with the element appended.
\<close>

definition GroupBy_step ::
    "('k \<Rightarrow> 'k \<Rightarrow> bool) \<Rightarrow> ('k \<times> 'v list) list \<Rightarrow> 'k \<Rightarrow> 'v \<Rightarrow> ('k \<times> 'v list) list" where
  "GroupBy_step eq result key element =
     (let result1 = (if map_lookup eq result key = None then map_assign eq result key []
                     else result)
      in map_assign eq result1 key (map_read eq result1 key @ [element]))"

fun GroupBy_loop ::
    "('k \<Rightarrow> 'k \<Rightarrow> bool) \<Rightarrow> ('k \<Rightarrow> bool) \<Rightarrow> 'v list \<Rightarrow> ('v \<Rightarrow> 'k) \<Rightarrow> ('k \<times> 'v list) list
     \<Rightarrow> fault + ('k \<times> 'v list) list" where
  "GroupBy_loop eq hashable [] keyFn result = Inr result"
| "GroupBy_loop eq hashable (element # rest) keyFn result =
     (let key = keyFn element
      in if \<not> hashable key then Inl RuntimePanic
         else GroupBy_loop eq hashable rest keyFn (GroupBy_step eq result key element))"

definition GroupBy ::
    "('k \<Rightarrow> 'k \<Rightarrow> bool) \<Rightarrow> ('k \<Rightarrow> bool) \<Rightarrow> 'v list \<Rightarrow> ('v \<Rightarrow> 'k)
     \<Rightarrow> fault + ('k \<times> 'v list) list" where
  "GroupBy eq hashable iterable keyFn = GroupBy_loop eq hashable iterable keyFn []"

text \<open>No two entries of a map have keys that are \<^verbatim>\<open>==\<close>.\<close>

fun keys_distinct :: "('k \<Rightarrow> 'k \<Rightarrow> bool) \<Rightarrow> ('k \<times> 'v) list \<Rightarrow> bool" where
  "keys_distinct eq [] = True"
| "keys_distinct eq ((k, v) # entries) =
     ((\<forall>k'\<in>fst ` set entries. \<not> eq k k') \<and> keys_distinct eq entries)"

text \<open>
  The \<^verbatim>\<open>float64\<close> keys as far as \<^verbatim>\<open>==\<close> goes: NaN, unequal to every value and to
  itself, and the numbers (integers stand for them), equal when they are the same.
\<close>

datatype float_key = Number int | NaN

definition float_eq :: "float_key \<Rightarrow> float_key \<Rightarrow> bool" where
  "float_eq a b = (a \<noteq> NaN \<and> b \<noteq> NaN \<and> a = b)"

section \<open>Properties\<close>

text \<open>
  The equations of the index loops and of \<open>digits\<close> rewrite a call into a call; they are
  unfolded by hand.
\<close>

declare SkipWhile_loop.simps [simp del]
declare DropWhile_loop.simps [simp del]
declare Chunk_loop.simps [simp del]
declare digits.simps [simp del]

subsection \<open>The loops as list functions\<close>

lemma All_slice_iff: "All_slice s p = (\<forall>x\<in>set s. p x)"
  by (induction s) auto

lemma Any_iff: "Any s p = (\<exists>x\<in>set s. p x)"
  by (induction s) auto

lemma TakeWhile_loop_eq: "TakeWhile_loop s p acc = acc @ takeWhile p s"
  by (induction s arbitrary: acc) auto

lemma SkipWhile_loop_eq: "SkipWhile_loop s p i = dropWhile p (drop i s)"
proof (induction s p i rule: SkipWhile_loop.induct)
  case (1 iterable predicate i)
  show ?case
  proof (cases "i < length iterable")
    case inside: True
    then have d: "drop i iterable = iterable ! i # drop (Suc i) iterable"
      by (simp add: Cons_nth_drop_Suc)
    show ?thesis
    proof (cases "predicate (iterable ! i)")
      case True
      with inside 1 d show ?thesis
        by (subst SkipWhile_loop.simps) simp
    next
      case False
      with inside d show ?thesis
        by (subst SkipWhile_loop.simps) simp
    qed
  next
    case False
    then show ?thesis
      by (subst SkipWhile_loop.simps) simp
  qed
qed

lemma TakeWhile_eq: "TakeWhile s p = takeWhile p s"
  by (simp add: TakeWhile_def TakeWhile_loop_eq)

lemma SkipWhile_eq: "SkipWhile s p = dropWhile p s"
  by (simp add: SkipWhile_def SkipWhile_loop_eq)

lemma Map_loop_eq: "Map_loop s f acc = acc @ map f s"
  by (induction s arbitrary: acc) auto

lemma Map_eq: "Map s f = map f s"
  by (simp add: Map_def Map_loop_eq)

lemma Filter_loop_eq: "Filter_loop s p acc = acc @ filter p s"
  by (induction s arbitrary: acc) auto

lemma Filter_eq: "Filter s p = filter p s"
  by (simp add: Filter_def Filter_loop_eq)

lemma Count_loop_eq: "Count_loop s v n = n + int (length (filter (\<lambda>x. x = v) s))"
  by (induction s arbitrary: n) auto

lemma Count_eq_Filter: "Count s v = int (length (Filter s (\<lambda>x. x = v)))"
  by (simp add: Count_def Count_loop_eq Filter_eq)

lemma Filter_partition: "length (Filter s p) + length (Filter s (\<lambda>x. \<not> p x)) = length s"
  by (simp add: Filter_eq sum_length_filter_compl)

lemma dropWhile_first_failing:
  "i < length s \<Longrightarrow> \<not> p (s ! i) \<Longrightarrow> (\<forall>j<i. p (s ! j)) \<Longrightarrow> dropWhile p s = drop i s"
proof (induction s arbitrary: i)
  case Nil
  then show ?case by simp
next
  case (Cons a s)
  show ?case
  proof (cases i)
    case 0
    with Cons.prems show ?thesis by simp
  next
    case (Suc n)
    with Cons.prems have "p a" by auto
    moreover have "dropWhile p s = drop n s"
    proof (rule Cons.IH)
      show "n < length s" using Cons.prems Suc by simp
      show "\<not> p (s ! n)" using Cons.prems Suc by simp
      show "\<forall>j<n. p (s ! j)"
      proof (intro allI impI)
        fix j assume "j < n"
        then have "Suc j < i" using Suc by simp
        with Cons.prems have "p ((a # s) ! Suc j)" by blast
        then show "p (s ! j)" by simp
      qed
    qed
    ultimately show ?thesis using Suc by simp
  qed
qed

lemma TakeWhile_draft_eq: "TakeWhile_draft z s p = z # takeWhile p s"
  by (simp add: TakeWhile_draft_def TakeWhile_loop_eq)

lemma DropWhile_draft_Nil: "DropWhile_draft z [] p = [z]"
  by (simp add: DropWhile_draft_def DropWhile_loop.simps)

subsection \<open>The map of GroupBy\<close>

text \<open>
  For a symmetric and transitive \<open>eq\<close>, a lookup after the loop finds, for a key \<open>k\<close>,
  the elements whose key is \<open>eq\<close> to \<open>k\<close>, in order, after what the map held for \<open>k\<close>
  before; the keys of the entries are keys of elements, and no two entries get \<open>eq\<close> keys.
\<close>

lemma map_lookup_cong:
  assumes "symp eq" and "transp eq" and "eq a b"
  shows "map_lookup eq m a = map_lookup eq m b"
proof (induction m)
  case Nil
  then show ?case by simp
next
  case (Cons entry m)
  obtain k v where entry: "entry = (k, v)" by (cases entry)
  have "eq k a = eq k b"
  proof
    assume "eq k a"
    then show "eq k b" using assms(2,3) by (blast dest: transpD)
  next
    assume "eq k b"
    moreover have "eq b a" using assms(1,3) by (blast dest: sympD)
    ultimately show "eq k a" using assms(2) by (blast dest: transpD)
  qed
  then show ?case using Cons entry by simp
qed

lemma map_lookup_assign:
  assumes s: "symp eq" and t: "transp eq"
  shows "map_lookup eq (map_assign eq m key v) k' =
           (if eq key k' then Some v else map_lookup eq m k')"
proof (induction m)
  case Nil
  then show ?case by simp
next
  case (Cons entry m)
  obtain k w where entry: "entry = (k, w)" by (cases entry)
  show ?case
  proof (cases "eq k key")
    case True
    have "\<not> eq key k' \<Longrightarrow> \<not> eq k k'"
    proof
      assume a: "\<not> eq key k'" and b: "eq k k'"
      have "eq key k" using s True by (blast dest: sympD)
      then have "eq key k'" using t b by (blast dest: transpD)
      then show False using a by simp
    qed
    then show ?thesis using True entry by auto
  next
    case False
    have "eq k k' \<Longrightarrow> \<not> eq key k'"
    proof
      assume a: "eq k k'" and b: "eq key k'"
      have "eq k' key" using s b by (blast dest: sympD)
      then have "eq k key" using t a by (blast dest: transpD)
      then show False using False by simp
    qed
    then show ?thesis using False entry Cons by auto
  qed
qed

lemma map_read_cong:
  "symp eq \<Longrightarrow> transp eq \<Longrightarrow> eq a b \<Longrightarrow> map_read eq m a = map_read eq m b"
  by (simp add: map_read_def map_lookup_cong [of eq a b])

lemma GroupBy_step_lookup:
  assumes s: "symp eq" and t: "transp eq"
  shows "map_lookup eq (GroupBy_step eq m key e) k =
           (if eq key k then Some (map_read eq m key @ [e]) else map_lookup eq m k)"
proof -
  define m1 where "m1 = (if map_lookup eq m key = None then map_assign eq m key [] else m)"
  have l1: "\<And>k'. map_lookup eq m1 k' =
      (if map_lookup eq m key = None \<and> eq key k' then Some [] else map_lookup eq m k')"
    unfolding m1_def by (simp add: map_lookup_assign [OF s t])
  have r1: "map_read eq m1 key = map_read eq m key"
    unfolding map_read_def l1 by (simp split: option.splits)
  have step: "GroupBy_step eq m key e = map_assign eq m1 key (map_read eq m key @ [e])"
    unfolding GroupBy_step_def Let_def m1_def [symmetric] r1 ..
  show ?thesis
    unfolding step map_lookup_assign [OF s t] l1 by simp
qed

lemma GroupBy_step_read:
  assumes s: "symp eq" and t: "transp eq"
  shows "map_read eq (GroupBy_step eq m key e) k =
           map_read eq m k @ (if eq key k then [e] else [])"
proof (cases "eq key k")
  case True
  then have "map_read eq m key = map_read eq m k" using s t by (intro map_read_cong)
  then show ?thesis using True by (simp add: map_read_def GroupBy_step_lookup [OF s t])
next
  case False
  then show ?thesis by (simp add: map_read_def GroupBy_step_lookup [OF s t])
qed

lemma filter_none: "\<not> (\<exists>x\<in>set s. P x) \<Longrightarrow> filter P s = []"
  by (induction s) auto

lemma GroupBy_loop_lookup:
  assumes sy: "symp eq" and tr: "transp eq"
  shows "\<forall>x\<in>set s. hashable (keyFn x) \<Longrightarrow>
         \<exists>m'. GroupBy_loop eq hashable s keyFn m = Inr m' \<and>
           (\<forall>k. map_lookup eq m' k =
              (if \<exists>x\<in>set s. eq (keyFn x) k
               then Some (map_read eq m k @ filter (\<lambda>x. eq (keyFn x) k) s)
               else map_lookup eq m k))"
proof (induction s arbitrary: m)
  case Nil
  then show ?case by simp
next
  case (Cons e s)
  let ?key = "keyFn e"
  let ?m2 = "GroupBy_step eq m ?key e"
  have h: "hashable ?key" and hs: "\<forall>x\<in>set s. hashable (keyFn x)" using Cons.prems by simp_all
  have unf: "GroupBy_loop eq hashable (e # s) keyFn m = GroupBy_loop eq hashable s keyFn ?m2"
    using h by (simp add: Let_def)
  obtain m' where run: "GroupBy_loop eq hashable s keyFn ?m2 = Inr m'"
    and look: "\<And>k. map_lookup eq m' k =
              (if \<exists>x\<in>set s. eq (keyFn x) k
               then Some (map_read eq ?m2 k @ filter (\<lambda>x. eq (keyFn x) k) s)
               else map_lookup eq ?m2 k)"
    using Cons.IH [OF hs, of ?m2] by blast
  have "map_lookup eq m' k =
              (if \<exists>x\<in>set (e # s). eq (keyFn x) k
               then Some (map_read eq m k @ filter (\<lambda>x. eq (keyFn x) k) (e # s))
               else map_lookup eq m k)" for k
  proof (cases "\<exists>x\<in>set s. eq (keyFn x) k")
    case True
    then show ?thesis
      unfolding look by (simp add: GroupBy_step_read [OF sy tr])
  next
    case False
    then have "filter (\<lambda>x. eq (keyFn x) k) s = []" by (rule filter_none)
    moreover have "map_read eq m ?key = map_read eq m k" if "eq ?key k"
      using sy tr that by (rule map_read_cong)
    ultimately show ?thesis
      unfolding look using False by (simp add: GroupBy_step_lookup [OF sy tr])
  qed
  then show ?case using unf run by simp
qed


lemma map_lookup_entry: "map_lookup eq m a = Some v \<Longrightarrow> \<exists>k\<in>fst ` set m. eq k a"
  by (induction m) (auto split: if_splits)

lemma map_assign_keys: "fst ` set (map_assign eq m key v) \<subseteq> insert key (fst ` set m)"
proof (induction m)
  case Nil
  then show ?case by simp
next
  case (Cons entry m)
  obtain k w where entry: "entry = (k, w)" by (cases entry)
  show ?case
  proof (cases "eq k key")
    case True
    then show ?thesis using entry by auto
  next
    case False
    then show ?thesis using entry Cons by auto
  qed
qed

lemma GroupBy_step_keys: "fst ` set (GroupBy_step eq m key e) \<subseteq> insert key (fst ` set m)"
proof -
  define m1 where "m1 = (if map_lookup eq m key = None then map_assign eq m key [] else m)"
  have "fst ` set m1 \<subseteq> insert key (fst ` set m)"
    unfolding m1_def using map_assign_keys [of eq m key "[]"] by auto
  moreover have "fst ` set (GroupBy_step eq m key e) \<subseteq> insert key (fst ` set m1)"
    unfolding GroupBy_step_def Let_def m1_def [symmetric] by (rule map_assign_keys)
  ultimately show ?thesis by blast
qed

lemma map_assign_distinct:
  assumes t: "transp eq"
  shows "keys_distinct eq m \<Longrightarrow> keys_distinct eq (map_assign eq m key v)"
proof (induction m)
  case Nil
  then show ?case by simp
next
  case (Cons entry m)
  obtain k w where entry: "entry = (k, w)" by (cases entry)
  have apart: "\<forall>k'\<in>fst ` set m. \<not> eq k k'" and rest: "keys_distinct eq m"
    using Cons.prems entry by simp_all
  show ?case
  proof (cases "eq k key")
    case True
    have "\<forall>k'\<in>fst ` set m. \<not> eq key k'"
    proof
      fix k' assume k': "k' \<in> fst ` set m"
      show "\<not> eq key k'"
      proof
        assume "eq key k'"
        then have "eq k k'" using t True by (blast dest: transpD)
        then show False using apart k' by blast
      qed
    qed
    then show ?thesis using True entry rest by simp
  next
    case False
    have "\<forall>k'\<in>fst ` set (map_assign eq m key v). \<not> eq k k'"
      using map_assign_keys [of eq m key v] apart False by blast
    then show ?thesis using False entry Cons.IH [OF rest] by simp
  qed
qed

lemma GroupBy_step_distinct:
  "transp eq \<Longrightarrow> keys_distinct eq m \<Longrightarrow> keys_distinct eq (GroupBy_step eq m key e)"
  by (simp add: GroupBy_step_def Let_def map_assign_distinct)

lemma GroupBy_loop_keys:
  "GroupBy_loop eq hashable s keyFn m = Inr m' \<Longrightarrow> fst ` set m' \<subseteq> fst ` set m \<union> keyFn ` set s"
proof (induction s arbitrary: m)
  case Nil
  then show ?case by simp
next
  case (Cons e s)
  then have run: "GroupBy_loop eq hashable s keyFn (GroupBy_step eq m (keyFn e) e) = Inr m'"
    by (simp add: Let_def split: if_splits)
  have "fst ` set m' \<subseteq> fst ` set (GroupBy_step eq m (keyFn e) e) \<union> keyFn ` set s"
    using run by (rule Cons.IH)
  then show ?case using GroupBy_step_keys [of eq m "keyFn e" e] by auto
qed

lemma GroupBy_loop_distinct:
  assumes t: "transp eq"
  shows "GroupBy_loop eq hashable s keyFn m = Inr m' \<Longrightarrow> keys_distinct eq m \<Longrightarrow>
         keys_distinct eq m'"
proof (induction s arbitrary: m)
  case Nil
  then show ?case by simp
next
  case (Cons e s)
  then have run: "GroupBy_loop eq hashable s keyFn (GroupBy_step eq m (keyFn e) e) = Inr m'"
    by (simp add: Let_def split: if_splits)
  have "keys_distinct eq (GroupBy_step eq m (keyFn e) e)"
    using t Cons.prems(2) by (rule GroupBy_step_distinct)
  with run show ?case by (rule Cons.IH)
qed

lemma GroupBy_loop_unhashable:
  "\<exists>x\<in>set s. \<not> hashable (keyFn x) \<Longrightarrow> GroupBy_loop eq hashable s keyFn m = Inl RuntimePanic"
  by (induction s arbitrary: m) (auto simp: Let_def)


subsection \<open>The tests of the package and the examples of the specification\<close>

text \<open>
  The model on the inputs of \<^verbatim>\<open>itertools_test.go\<close> and of the specification's concrete
  examples (with room to allocate a hundred elements), and the two draft functions on the
  same input.
\<close>

lemma test_Count: "Count [1, 2, 3, 5, 1, 5 :: int] 1 = 2 \<and> Count [1, 2, 3, 5, 1, 5 :: int] 45 = 0"
  by code_simp

lemma test_All_Any:
  "All_slice [1, 2, 3, 5 :: int] (\<lambda>x. x > 0) \<and> Any [1, 0, 2, 3, 0, 5 :: int] (\<lambda>x. x = 0)"
  by code_simp

lemma test_TakeWhile:
  "TakeWhile [''foo'', ''bar'', ''aba'', ''z'', ''45''] (\<lambda>s. length s = 3) = [''foo'', ''bar'', ''aba'']"
  by code_simp

lemma test_SkipWhile:
  "SkipWhile [''foo'', ''bar'', ''aba'', ''z'', ''45''] (\<lambda>s. length s = 3) = [''z'', ''45'']"
  by code_simp

lemma test_Map: "Map [1, 2, 3 :: int] (\<lambda>i. i * i) = [1, 4, 9]"
  by code_simp

lemma test_Filter:
  "Filter ['''', ''foo'', ''bar'', '''', ''baz''] (\<lambda>s. length s > 0) = [''foo'', ''bar'', ''baz'']"
  by code_simp

lemma test_Flatten:
  "Flatten 100 [[1, 2, 3], [], [4, 5, 6 :: int]] = Inr [1, 2, 3, 4, 5, 6]"
  by code_simp

lemma test_Chunk_even:
  "Chunk 100 [1, 2, 3, 4, 5, 6 :: int] 3 =
     Inr \<lparr>Chunks = [[1, 2, 3], [4, 5, 6]], ChunkSize = 3, Total = 6, Remainder = 0\<rparr>"
  by code_simp

lemma test_Chunk_uneven:
  "Chunk 100 [1, 2, 3, 4, 5 :: int] 3 =
     Inr \<lparr>Chunks = [[1, 2, 3], [4, 5]], ChunkSize = 3, Total = 5, Remainder = 2\<rparr>"
  by code_simp

lemma test_Chunk_invalid:
  "Chunk 100 [1, 2 :: int] (- 120) =
     Inl (InvalidArgument ''-120 is not a valid chunk size, you must provide a positive integer'')"
  by code_simp

lemma test_drafts:
  "TakeWhile_draft [] [''foo'', ''bar'', ''aba'', ''z'', ''45''] (\<lambda>s. length s = 3)
     = ['''', ''foo'', ''bar'', ''aba''] \<and>
   DropWhile_draft [] [''foo'', ''bar'', ''aba'', ''z'', ''45''] (\<lambda>s. length s = 3)
     = ['''', ''bar'', ''aba'', ''z'', ''45'']"
  by code_simp

lemma test_GroupBy:
  "GroupBy (=) (\<lambda>k. True) [''a'', ''aa'', ''b'', ''bbb''] length =
     Inr [(1, [''a'', ''b'']), (2, [''aa'']), (3, [''bbb''])]"
  by code_simp

subsection \<open>All and Any\<close>

text \<open>
  C5. For every sequence \<open>s\<close> and predicate \<open>p\<close>, \<open>All(s, p)\<close> is the negation of
  \<open>Any(s, negate(p))\<close>; \<open>All\<close> is true on the empty sequence and \<open>Any\<close> is false on it.
\<close>

theorem All_Any_duality:
  "All_slice s p = (\<not> Any s (\<lambda>x. \<not> p x)) \<and> All_slice [] p = True \<and> Any [] p = False"
  by (simp add: All_slice_iff Any_iff)

subsection \<open>SkipWhile and TakeWhile\<close>

text \<open>
  C6. \<open>SkipWhile(s, p)\<close> is the suffix of \<open>s\<close> that starts at the first element which
  does not satisfy \<open>p\<close>: when every element satisfies \<open>p\<close> (also when \<open>s\<close> is empty) it
  is empty, and when \<open>i\<close> is the first index whose element fails \<open>p\<close> it is \<open>s[i:]\<close>.
\<close>

theorem SkipWhile_suffix:
  "SkipWhile s p = spec_SkipWhile s p \<and>
   ((\<forall>x\<in>set s. p x) \<longrightarrow> SkipWhile s p = []) \<and>
   (\<forall>i<length s. \<not> p (s ! i) \<longrightarrow> (\<forall>j<i. p (s ! j)) \<longrightarrow> SkipWhile s p = drop i s)"
  by (simp add: SkipWhile_eq spec_SkipWhile_def dropWhile_first_failing)

theorem SkipWhile_suffix_witness:
  "SkipWhile [''foo'', ''bar'', ''aba'', ''z'', ''45''] (\<lambda>s. length s = 3) = [''z'', ''45''] \<and>
   SkipWhile [''foo'', ''bar''] (\<lambda>s. length s = 3) = [] \<and>
   SkipWhile ([] :: string list) (\<lambda>s. length s = 3) = []"
proof -
  let ?p = "\<lambda>s :: string. length s = 3"
  let ?s = "[''foo'', ''bar'', ''aba'', ''z'', ''45'']"
  have "\<forall>i<length ?s. \<not> ?p (?s ! i) \<longrightarrow> (\<forall>j<i. ?p (?s ! j)) \<longrightarrow> SkipWhile ?s ?p = drop i ?s"
    using SkipWhile_suffix [of ?s ?p, THEN conjunct2, THEN conjunct2] .
  then have "3 < length ?s \<longrightarrow> \<not> ?p (?s ! 3) \<longrightarrow> (\<forall>j<3. ?p (?s ! j)) \<longrightarrow>
      SkipWhile ?s ?p = drop 3 ?s"
    by blast
  moreover have "\<forall>j<3::nat. ?p (?s ! j)"
    by (simp add: less_Suc_eq numeral_3_eq_3)
  ultimately have a: "SkipWhile ?s ?p = [''z'', ''45'']" by simp
  have b: "SkipWhile [''foo'', ''bar''] ?p = []"
    using SkipWhile_suffix [of "[''foo'', ''bar'']" ?p, THEN conjunct2, THEN conjunct1] by simp
  have c: "SkipWhile ([] :: string list) ?p = []"
    using SkipWhile_suffix [of "[]" ?p, THEN conjunct2, THEN conjunct1] by simp
  from a b c show ?thesis by simp
qed

text \<open>
  C10. For every sequence \<open>s\<close> and predicate \<open>p\<close>, \<open>TakeWhile(s, p)\<close> followed by
  \<open>SkipWhile(s, p)\<close> is exactly \<open>s\<close>.
\<close>

theorem TakeWhile_SkipWhile_concat: "TakeWhile s p @ SkipWhile s p = s"
  by (simp add: TakeWhile_eq SkipWhile_eq)

text \<open>
  C4 as stated: some \<open>s\<close> and \<open>p\<close> make \<open>TakeWhile(s, p)\<close> followed by
  \<open>SkipWhile(s, p)\<close> differ from \<open>s\<close>. The code has no such \<open>s\<close> and \<open>p\<close>.
\<close>

theorem TakeWhile_SkipWhile_never_differ:
  "\<not> (\<exists>(s :: 'a list) p. TakeWhile s p @ SkipWhile s p \<noteq> s)"
  by (simp add: TakeWhile_eq SkipWhile_eq)

text \<open>
  C4, amended. \<open>TakeWhile\<close> and \<open>SkipWhile\<close> with the same predicate cut \<open>s\<close> at one
  point \<open>n = len(TakeWhile(s, p))\<close>: \<open>TakeWhile(s, p)\<close> is \<open>s[:n]\<close> and
  \<open>SkipWhile(s, p)\<close> is \<open>s[n:]\<close>; every element of the first satisfies \<open>p\<close>, and the
  second, when not empty, starts with an element that fails \<open>p\<close>.
\<close>

theorem TakeWhile_SkipWhile_cut:
  "TakeWhile s p = take (length (TakeWhile s p)) s \<and>
   SkipWhile s p = drop (length (TakeWhile s p)) s \<and>
   (\<forall>x\<in>set (TakeWhile s p). p x) \<and>
   (SkipWhile s p \<noteq> [] \<longrightarrow> \<not> p (hd (SkipWhile s p)))"
proof (intro conjI)
  show "TakeWhile s p = take (length (TakeWhile s p)) s"
    unfolding TakeWhile_eq by (rule takeWhile_eq_take)
  show "SkipWhile s p = drop (length (TakeWhile s p)) s"
    unfolding TakeWhile_eq SkipWhile_eq by (rule dropWhile_eq_drop)
  show "\<forall>x\<in>set (TakeWhile s p). p x"
    unfolding TakeWhile_eq by (auto dest: set_takeWhileD)
  show "SkipWhile s p \<noteq> [] \<longrightarrow> \<not> p (hd (SkipWhile s p))"
    unfolding SkipWhile_eq by (auto simp: hd_dropWhile)
qed

theorem TakeWhile_SkipWhile_cut_witness:
  "TakeWhile [''foo'', ''bar'', ''aba'', ''z'', ''45''] (\<lambda>s. length s = 3)
     = [''foo'', ''bar'', ''aba''] \<and>
   SkipWhile [''foo'', ''bar'', ''aba'', ''z'', ''45''] (\<lambda>s. length s = 3) = [''z'', ''45''] \<and>
   \<not> length (hd (SkipWhile [''foo'', ''bar'', ''aba'', ''z'', ''45''] (\<lambda>s. length s = 3))) = 3"
proof -
  let ?p = "\<lambda>s :: string. length s = 3"
  let ?s = "[''foo'', ''bar'', ''aba'', ''z'', ''45'']"
  have n: "length (TakeWhile ?s ?p) = 3"
    by (simp add: TakeWhile_def)
  have cut: "TakeWhile ?s ?p = [''foo'', ''bar'', ''aba''] \<and> SkipWhile ?s ?p = [''z'', ''45'']"
    using TakeWhile_SkipWhile_cut [of ?s ?p] unfolding n by simp
  then have "SkipWhile ?s ?p \<noteq> []" by simp
  then have "\<not> ?p (hd (SkipWhile ?s ?p))"
    using TakeWhile_SkipWhile_cut [of ?s ?p] by blast
  with cut show ?thesis by blast
qed

text \<open>
  C9. The draft \<open>TakeWhile\<close> and \<open>DropWhile\<close>, which start from a buffer of one
  zero-valued element, are not equal to \<open>TakeWhile\<close> and \<open>SkipWhile\<close> of
  \<^verbatim>\<open>itertools.go\<close>, which start from an empty buffer: their results differ on some
  sequence and predicate. The later versions compute what the specification describes on
  every input; the draft versions do not.
\<close>

theorem draft_differs_from_corrected:
  "(\<exists>(s :: 'a list) p. TakeWhile_draft z s p \<noteq> TakeWhile s p) \<and>
   (\<exists>(s :: 'a list) p. DropWhile_draft z s p \<noteq> SkipWhile s p) \<and>
   (\<forall>(s :: 'a list) p. TakeWhile s p = spec_TakeWhile s p) \<and>
   (\<forall>(s :: 'a list) p. SkipWhile s p = spec_SkipWhile s p) \<and>
   (\<exists>(s :: 'a list) p. TakeWhile_draft z s p \<noteq> spec_TakeWhile s p) \<and>
   (\<exists>(s :: 'a list) p. DropWhile_draft z s p \<noteq> spec_SkipWhile s p)"
proof (intro conjI)
  have "TakeWhile_draft z [] (\<lambda>x. True) \<noteq> TakeWhile [] (\<lambda>x. True)"
    by (simp add: TakeWhile_draft_eq TakeWhile_eq)
  then show "\<exists>(s :: 'a list) p. TakeWhile_draft z s p \<noteq> TakeWhile s p" by blast
  have "DropWhile_draft z [] (\<lambda>x. True) \<noteq> SkipWhile [] (\<lambda>x. True)"
    by (simp add: DropWhile_draft_Nil SkipWhile_eq)
  then show "\<exists>(s :: 'a list) p. DropWhile_draft z s p \<noteq> SkipWhile s p" by blast
  show "\<forall>(s :: 'a list) p. TakeWhile s p = spec_TakeWhile s p"
    by (simp add: TakeWhile_eq spec_TakeWhile_def)
  show "\<forall>(s :: 'a list) p. SkipWhile s p = spec_SkipWhile s p"
    by (simp add: SkipWhile_eq spec_SkipWhile_def)
  have "TakeWhile_draft z [] (\<lambda>x. True) \<noteq> spec_TakeWhile [] (\<lambda>x. True)"
    by (simp add: TakeWhile_draft_eq spec_TakeWhile_def)
  then show "\<exists>(s :: 'a list) p. TakeWhile_draft z s p \<noteq> spec_TakeWhile s p" by blast
  have "DropWhile_draft z [] (\<lambda>x. True) \<noteq> spec_SkipWhile [] (\<lambda>x. True)"
    by (simp add: DropWhile_draft_Nil spec_SkipWhile_def)
  then show "\<exists>(s :: 'a list) p. DropWhile_draft z s p \<noteq> spec_SkipWhile s p" by blast
qed

subsection \<open>Map\<close>

text \<open>
  C7. For every sequence \<open>s\<close> and transform \<open>f\<close>, \<open>Map(s, f)\<close> has the length of \<open>s\<close>
  and its element at every index \<open>i\<close> is \<open>f(s[i])\<close>.
\<close>

theorem Map_pointwise:
  "length (Map s f) = length s \<and> (\<forall>i<length s. Map s f ! i = f (s ! i))"
  by (simp add: Map_eq)

theorem Map_pointwise_witness:
  "length (Map [1, 2, 3 :: int] (\<lambda>i. i * i)) = 3 \<and> Map [1, 2, 3 :: int] (\<lambda>i. i * i) ! 2 = 9"
  using Map_pointwise [of "[1, 2, 3 :: int]" "\<lambda>i. i * i"] by simp

subsection \<open>GroupBy\<close>

text \<open>
  The \<^verbatim>\<open>==\<close> of \<^verbatim>\<open>float64\<close> is symmetric and transitive, and NaN is unequal to itself.
\<close>

lemma float_eq_symp_transp: "symp float_eq \<and> transp float_eq \<and> \<not> float_eq NaN NaN"
  by (auto simp: float_eq_def symp_def transp_def)


text \<open>
  C8 as stated: for every key function, the keys of \<open>GroupBy(s, keyFn)\<close> are exactly
  the values \<open>keyFn\<close> produces and each key is mapped to the elements with that key. With
  \<^verbatim>\<open>float64\<close> keys and a key function that returns NaN on \<open>[1, 2]\<close>, no lookup finds
  an entry, so each element adds two entries, an empty one and one with the element
  alone: the map has four entries, none holds \<open>[1, 2]\<close>, and looking NaN up finds nothing.
\<close>

theorem GroupBy_NaN_keys:
  "GroupBy float_eq (\<lambda>k. True) [1, 2 :: int] (\<lambda>x. NaN) =
     Inr [(NaN, []), (NaN, [1]), (NaN, []), (NaN, [2])] \<and>
   map_lookup float_eq [(NaN, []), (NaN, [1]), (NaN, []), (NaN, [2 :: int])] NaN = None"
  by code_simp


text \<open>
  C8, amended. When every key \<open>keyFn\<close> produces on \<open>s\<close> can be hashed and is \<^verbatim>\<open>==\<close> to
  itself (no NaN among them), \<open>GroupBy(s, keyFn)\<close> returns a map whose keys are exactly
  the values \<open>keyFn\<close> produces on \<open>s\<close>, one entry for each up to \<^verbatim>\<open>==\<close>, and each key
  \<open>k\<close> is mapped to exactly the elements of \<open>s\<close> whose key \<^verbatim>\<open>==\<close> \<open>k\<close>, in their order
  in \<open>s\<close>.
\<close>

theorem GroupBy_groups:
  assumes sy: "symp eq" and tr: "transp eq"
    and keys: "\<forall>x\<in>set s. hashable (keyFn x) \<and> eq (keyFn x) (keyFn x)"
  shows "\<exists>m. GroupBy eq hashable s keyFn = Inr m \<and>
           fst ` set m \<subseteq> keyFn ` set s \<and>
           (\<forall>x\<in>set s. \<exists>k\<in>fst ` set m. eq k (keyFn x)) \<and>
           keys_distinct eq m \<and>
           (\<forall>x\<in>set s. map_lookup eq m (keyFn x) =
                         Some (filter (\<lambda>y. eq (keyFn y) (keyFn x)) s)) \<and>
           (\<forall>k. map_lookup eq m k \<noteq> None \<longrightarrow> (\<exists>x\<in>set s. eq (keyFn x) k))"
proof -
  have h: "\<forall>x\<in>set s. hashable (keyFn x)" using keys by blast
  obtain m where run: "GroupBy_loop eq hashable s keyFn [] = Inr m"
    and look: "\<And>k. map_lookup eq m k =
              (if \<exists>x\<in>set s. eq (keyFn x) k
               then Some (map_read eq [] k @ filter (\<lambda>x. eq (keyFn x) k) s)
               else map_lookup eq [] k)"
    using GroupBy_loop_lookup [OF sy tr h, of "[]"] by blast
  have look': "\<And>k. map_lookup eq m k =
              (if \<exists>x\<in>set s. eq (keyFn x) k
               then Some (filter (\<lambda>x. eq (keyFn x) k) s) else None)"
    unfolding look by (simp add: map_read_def)
  have found: "\<forall>x\<in>set s. map_lookup eq m (keyFn x) =
                         Some (filter (\<lambda>y. eq (keyFn y) (keyFn x)) s)"
  proof
    fix x assume x: "x \<in> set s"
    then have "eq (keyFn x) (keyFn x)" using keys by blast
    then have "\<exists>y\<in>set s. eq (keyFn y) (keyFn x)" using x by blast
    then show "map_lookup eq m (keyFn x) = Some (filter (\<lambda>y. eq (keyFn y) (keyFn x)) s)"
      unfolding look' by simp
  qed
  have entries: "\<forall>x\<in>set s. \<exists>k\<in>fst ` set m. eq k (keyFn x)"
    using found by (blast dest: map_lookup_entry)
  have only: "\<forall>k. map_lookup eq m k \<noteq> None \<longrightarrow> (\<exists>x\<in>set s. eq (keyFn x) k)"
    unfolding look' by simp
  have sub: "fst ` set m \<subseteq> keyFn ` set s"
    using GroupBy_loop_keys [OF run] by simp
  have dist: "keys_distinct eq m"
    using tr run by (rule GroupBy_loop_distinct) simp
  show ?thesis
    unfolding GroupBy_def using run sub entries dist found only by blast
qed

theorem GroupBy_groups_witness:
  "\<exists>m. GroupBy (=) (\<lambda>k. True) [''a'', ''aa'', ''b'', ''bbb''] length = Inr m \<and>
       fst ` set m = {1, 2, 3} \<and>
       map_lookup (=) m 1 = Some [''a'', ''b''] \<and>
       map_lookup (=) m 2 = Some [''aa''] \<and>
       map_lookup (=) m 3 = Some [''bbb''] \<and>
       map_lookup (=) m 4 = None"
proof -
  let ?s = "[''a'', ''aa'', ''b'', ''bbb'']"
  have sy: "symp ((=) :: nat \<Rightarrow> nat \<Rightarrow> bool)" by (simp add: symp_def)
  have tr: "transp ((=) :: nat \<Rightarrow> nat \<Rightarrow> bool)" by (simp add: transp_def)
  have keys: "\<forall>x\<in>set ?s. (\<lambda>k. True) (length x) \<and> length x = length x" by simp
  obtain m where run: "GroupBy (=) (\<lambda>k. True) ?s length = Inr m"
    and sub: "fst ` set m \<subseteq> length ` set ?s"
    and entries: "\<forall>x\<in>set ?s. \<exists>k\<in>fst ` set m. k = length x"
    and found: "\<forall>x\<in>set ?s. map_lookup (=) m (length x) =
                         Some (filter (\<lambda>y. length y = length x) ?s)"
    and only: "\<forall>k. map_lookup (=) m k \<noteq> None \<longrightarrow> (\<exists>x\<in>set ?s. length x = k)"
    using GroupBy_groups [OF sy tr keys] by blast
  have k: "fst ` set m = {1, 2, 3}"
  proof
    show "fst ` set m \<subseteq> {1, 2, 3}" using sub by auto
    show "{1, 2, 3} \<subseteq> fst ` set m"
      using entries by (simp add: numeral_2_eq_2 numeral_3_eq_3)
  qed
  have g1: "map_lookup (=) m 1 = Some [''a'', ''b'']" using found by simp
  have g2: "map_lookup (=) m 2 = Some [''aa'']"
    using found by (simp add: numeral_2_eq_2)
  have g3: "map_lookup (=) m 3 = Some [''bbb'']"
    using found by (simp add: numeral_3_eq_3)
  have "\<not> (\<exists>x\<in>set ?s. length x = 4)" by simp
  then have g4: "map_lookup (=) m 4 = None" using only by blast
  show ?thesis using run k g1 g2 g3 g4 by blast
qed


subsection \<open>Chunk: arithmetic without wrap-around\<close>

text \<open>
  When \<^verbatim>\<open>itemCount + size - 1\<close> does not exceed the largest \<^verbatim>\<open>int\<close>, no operation of
  \<^verbatim>\<open>Chunk\<close> wraps around: \<^verbatim>\<open>nBatches\<close> is the quotient rounded up, every slice
  expression of the loop is in range, and the loop stores \<open>take k (drop (j * k) s)\<close> at
  index \<open>j\<close>.
\<close>

lemma wrap64_id: "min_int \<le> x \<Longrightarrow> x \<le> max_int \<Longrightarrow> wrap64 x = x"
  by (simp add: wrap64_def min_int_def max_int_def)

lemma wrap64_of_nat: "int m \<le> max_int \<Longrightarrow> wrap64 (int m) = int m"
proof (rule wrap64_id)
  have "min_int \<le> 0" by (simp add: min_int_def)
  also have "0 \<le> int m" by (rule of_nat_0_le_iff)
  finally show "min_int \<le> int m" .
qed

lemma wrap64_add_left: "wrap64 (wrap64 a + b) = wrap64 (a + b)"
proof -
  have "(((a + 2 ^ 63) mod 2 ^ 64 - 2 ^ 63) + b + 2 ^ 63) mod (2 ^ 64 :: int)
        = ((a + 2 ^ 63) mod 2 ^ 64 + b) mod 2 ^ 64"
    by (simp add: algebra_simps)
  also have "\<dots> = (a + 2 ^ 63 + b) mod 2 ^ 64"
    by (rule mod_add_left_eq)
  finally show ?thesis
    by (simp add: wrap64_def algebra_simps)
qed

lemma ceil_div_nat:
  fixes L k :: nat
  assumes "0 < k"
  shows "(L + k - 1) div k = (if L mod k = 0 then L div k else L div k + 1)"
proof -
  define q r where "q = L div k" and "r = L mod k"
  have L: "L = k * q + r" and rk: "r < k"
    using assms by (simp_all add: q_def r_def)
  show ?thesis
  proof (cases "r = 0")
    case True
    have "(L + k - 1) div k = q"
    proof (rule div_nat_eqI)
      show "k * q \<le> L + k - 1" using L assms by simp
      show "L + k - 1 < k * Suc q" using L True assms by simp
    qed
    then show ?thesis using True by (simp add: q_def r_def)
  next
    case False
    have "(L + k - 1) div k = Suc q"
    proof (rule div_nat_eqI)
      show "k * Suc q \<le> L + k - 1" using L False by simp
      show "L + k - 1 < k * Suc (Suc q)" using L rk by simp
    qed
    then show ?thesis using False by (simp add: q_def r_def)
  qed
qed

lemma go_quo_nonneg: "0 \<le> a \<Longrightarrow> 0 < b \<Longrightarrow> a \<le> max_int \<Longrightarrow> go_quo a b = a div b"
proof -
  assume a: "0 \<le> a" and b: "0 < b" and m: "a \<le> max_int"
  have "a div b \<le> a" using a b
    by (metis div_by_1 int_one_le_iff_zero_less zdiv_mono2 zero_less_one)
  moreover have "0 \<le> a div b" using a b by (simp add: pos_imp_zdiv_nonneg_iff)
  ultimately have "wrap64 (a div b) = a div b"
    using m by (intro wrap64_id) (auto simp: min_int_def)
  moreover have "sgn a * sgn b * (\<bar>a\<bar> div \<bar>b\<bar>) = a div b"
    using a b by (cases "a = 0") (auto simp: sgn_if)
  ultimately show ?thesis by (simp add: go_quo_def)
qed

lemma go_rem_nonneg: "0 \<le> a \<Longrightarrow> 0 < b \<Longrightarrow> go_rem a b = a mod b"
  by (cases "a = 0") (auto simp: go_rem_def sgn_if)


lemma chunk_start_in_range:
  fixes L k i :: nat
  assumes "0 < k" and "i < (L + k - 1) div k"
  shows "i * k < L"
proof -
  define q where "q = L div k"
  have L: "L = q * k + L mod k" by (simp add: q_def)
  show ?thesis
  proof (cases "L mod k = 0")
    case True
    then have "Suc i \<le> q" using assms ceil_div_nat [OF assms(1), of L] by (simp add: q_def)
    then have "Suc i * k \<le> q * k" by (rule mult_le_mono1)
    then have "i * k + k \<le> q * k" by simp
    moreover have "L = q * k" using L True by simp
    ultimately show ?thesis using assms(1) by linarith
  next
    case False
    then have "i \<le> q" using assms ceil_div_nat [OF assms(1), of L] by (simp add: q_def)
    then have "i * k \<le> q * k" by (rule mult_le_mono1)
    then show ?thesis using L False by linarith
  qed
qed

lemma chunk_full_end_in_range:
  fixes L k i :: nat
  assumes "0 < k" and "i < (L + k - 1) div k"
    and "Suc i < (L + k - 1) div k \<or> L mod k = 0"
  shows "i * k + k \<le> L"
proof -
  define q where "q = L div k"
  have L: "L = q * k + L mod k" by (simp add: q_def)
  have "Suc i \<le> q" using assms ceil_div_nat [OF assms(1), of L]
    by (auto simp: q_def split: if_splits)
  then have "Suc i * k \<le> q * k" by (rule mult_le_mono1)
  then show ?thesis using L by simp
qed

lemma chunk_last_end:
  fixes L k i :: nat
  assumes "0 < k" and "Suc i = (L + k - 1) div k" and "0 < L mod k"
  shows "i * k + L mod k = L"
proof -
  have "i = L div k" using assms ceil_div_nat [OF assms(1), of L] by simp
  then show ?thesis by simp
qed

lemma slice_expr_nat:
  "a \<le> b \<Longrightarrow> b \<le> length s \<Longrightarrow> slice_expr s (int a) (int b) = Inr (take (b - a) (drop a s))"
proof -
  assume ab: "a \<le> b" and b: "b \<le> length s"
  have "int b - int a = int (b - a)" using ab by (rule of_nat_diff [symmetric])
  then have "nat (int b - int a) = b - a" by (simp only: nat_int)
  then show ?thesis using ab b by (simp add: slice_expr_def)
qed

text \<open>One iteration of the loop, then the whole loop from index \<open>i\<close>.\<close>

lemma Chunk_loop_unfold:
  assumes start: "wrap64 (int i * int k) = int (i * k)"
   and end1: "(if int i = wrap64 (int n - 1) \<and> int r > 0
               then wrap64 (int (i * k) + int r) else wrap64 (int (i * k) + int k)) = int e"
   and cond: "int i < int n"
   and idx: "i < length result"
  shows "Chunk_loop s (int k) (int n) (int r) (int i) result =
        (case slice_expr s (int (i * k)) (int e) of
           Inl err \<Rightarrow> Inl err
         | Inr chunk \<Rightarrow> Chunk_loop s (int k) (int n) (int r) (int i + 1) (result[nat (int i) := chunk]))"
proof -
  have inside: "(0 \<le> int i \<and> int i < int (length result)) = True" using idx by simp
  show ?thesis
    apply (subst Chunk_loop.simps)
    apply (simp only: Let_def start)
    apply (simp only: end1 cond inside if_True)
    done
qed

lemma Chunk_loop_step:
  fixes s :: "'a list" and k n i :: nat
  assumes k: "0 < k" and bound: "int (length s) + int k - 1 \<le> max_int"
    and n: "n = (length s + k - 1) div k" and i: "i < n" and idx: "i < length result"
  shows "Chunk_loop s (int k) (int n) (int (length s mod k)) (int i) result =
         Chunk_loop s (int k) (int n) (int (length s mod k)) (int (Suc i))
           (result[i := take k (drop (i * k) s)])"
proof -
  let ?L = "length s"
  let ?r = "?L mod k"
  have start_lt: "i * k < ?L" using chunk_start_in_range [OF k] i n by blast
  have L_max: "int ?L \<le> max_int" using bound k by simp
  have start_int: "int (i * k) < int ?L" using start_lt by (simp only: of_nat_less_iff)
  have r_lt: "int ?r < int k" using k by simp
  have start: "wrap64 (int i * int k) = int (i * k)"
  proof -
    have "int (i * k) \<le> max_int" using start_int L_max by linarith
    then have "wrap64 (int (i * k)) = int (i * k)"
      by (rule wrap64_of_nat)
    then show ?thesis by simp
  qed
  have end0: "wrap64 (int (i * k) + int k) = int (i * k + k)"
  proof -
    have "int (i * k + k) = int (i * k) + int k" by (rule of_nat_add)
    then have "int (i * k + k) \<le> max_int" using start_int bound by linarith
    then have "wrap64 (int (i * k + k)) = int (i * k + k)"
      by (rule wrap64_of_nat)
    then show ?thesis by simp
  qed
  have endr: "wrap64 (int (i * k) + int ?r) = int (i * k + ?r)"
  proof -
    have "int (i * k + ?r) = int (i * k) + int ?r" by (rule of_nat_add)
    then have "int (i * k + ?r) \<le> max_int" using start_int r_lt bound by linarith
    then have "wrap64 (int (i * k + ?r)) = int (i * k + ?r)"
      by (rule wrap64_of_nat)
    then show ?thesis by simp
  qed
  have n1: "wrap64 (int n - 1) = int n - 1"
  proof -
    have "n \<le> ?L" 
    proof -
      have a: "(n - 1) * k < ?L" using chunk_start_in_range [OF k, of "n - 1" ?L] i n by simp
      have "1 \<le> k" using k by simp
      then have "(n - 1) * 1 \<le> (n - 1) * k" by (rule mult_le_mono2)
      then have "n - 1 \<le> (n - 1) * k" by (simp only: mult_1_right)
      then have "n - 1 < ?L" using a by (rule le_less_trans)
      then show ?thesis using i by linarith
    qed
    then have "int n - 1 \<le> max_int" using L_max by simp
    moreover have "min_int \<le> int n - 1" by (simp add: min_int_def)
    ultimately show ?thesis by (intro wrap64_id)
  qed
  have last_iff: "(int i = int n - 1) = (Suc i = n)" by auto
  define e where "e = (if Suc i = n \<and> 0 < ?r then i * k + ?r else i * k + k)"
  have e_le: "e \<le> ?L"
  proof (cases "Suc i = n \<and> 0 < ?r")
    case True
    then show ?thesis using chunk_last_end [OF k, of i ?L] n by (simp add: e_def)
  next
    case False
    then have "Suc i < n \<or> ?r = 0" using i by auto
    then show ?thesis using chunk_full_end_in_range [OF k, of i ?L] i n False
      by (simp add: e_def)
  qed
  have e_ge: "i * k \<le> e" by (simp add: e_def)
  have piece: "take (e - i * k) (drop (i * k) s) = take k (drop (i * k) s)"
  proof (cases "Suc i = n \<and> 0 < ?r")
    case True
    then have "i * k + ?r = ?L" using chunk_last_end [OF k, of i ?L] n by simp
    then have len: "length (drop (i * k) s) = ?r" by simp
    have "?r \<le> k" using k by (simp add: less_imp_le)
    then have "take k (drop (i * k) s) = drop (i * k) s" using len by simp
    moreover have "take ?r (drop (i * k) s) = drop (i * k) s" using len by simp
    ultimately show ?thesis using True by (simp add: e_def)
  next
    case False
    then have "e = i * k + k" unfolding e_def by (rule if_not_P)
    then show ?thesis by simp
  qed
  have sl: "slice_expr s (int (i * k)) (int e) = Inr (take k (drop (i * k) s))"
    using slice_expr_nat [OF e_ge e_le] piece by (simp only:)
  have end1: "(if int i = wrap64 (int n - 1) \<and> int ?r > 0
               then wrap64 (int (i * k) + int ?r) else wrap64 (int (i * k) + int k)) = int e"
    unfolding n1 last_iff end0 endr e_def by simp
  have cond: "int i < int n" using i by simp
  have suc: "int i + 1 = int (Suc i)" by simp
  have "Chunk_loop s (int k) (int n) (int ?r) (int i) result =
        (case slice_expr s (int (i * k)) (int e) of
           Inl err \<Rightarrow> Inl err
         | Inr chunk \<Rightarrow> Chunk_loop s (int k) (int n) (int ?r) (int i + 1) (result[nat (int i) := chunk]))"
    using start end1 cond idx by (rule Chunk_loop_unfold)
  also have "\<dots> = Chunk_loop s (int k) (int n) (int ?r) (int (Suc i)) (result[i := take k (drop (i * k) s)])"
    by (simp only: sl sum.case suc nat_int)
  finally show ?thesis .
qed

lemma Chunk_loop_exit: "\<not> i < nBatches \<Longrightarrow> Chunk_loop s sz nBatches r i result = Inr result"
  by (subst Chunk_loop.simps) simp

lemma Chunk_loop_run:
  fixes s :: "'a list" and k n i :: nat
  assumes k: "0 < k" and bound: "int (length s) + int k - 1 \<le> max_int"
    and n: "n = (length s + k - 1) div k"
  shows "i \<le> n \<Longrightarrow> length result = n \<Longrightarrow>
         Chunk_loop s (int k) (int n) (int (length s mod k)) (int i) result =
         Inr (take i result @ map (\<lambda>j. take k (drop (j * k) s)) [i..<n])"
proof (induction "n - i" arbitrary: i result)
  case 0
  then have "i = n" by simp
  then show ?case using "0.prems" by (simp add: Chunk_loop_exit)
next
  case (Suc d)
  then have i: "i < n" by simp
  let ?c = "take k (drop (i * k) s)"
  have "Chunk_loop s (int k) (int n) (int (length s mod k)) (int i) result =
        Chunk_loop s (int k) (int n) (int (length s mod k)) (int (Suc i)) (result[i := ?c])"
    using k bound n i by (rule Chunk_loop_step) (use i Suc.prems in simp)
  also have "\<dots> = Inr (take (Suc i) (result[i := ?c]) @
                        map (\<lambda>j. take k (drop (j * k) s)) [Suc i..<n])"
  proof (rule Suc.hyps(1))
    show "d = n - Suc i" using Suc.hyps(2) by simp
    show "Suc i \<le> n" using i by simp
    show "length (result[i := ?c]) = n" using Suc.prems by simp
  qed
  also have "take (Suc i) (result[i := ?c]) = take i result @ [?c]"
    using i Suc.prems by (simp add: take_Suc_conv_app_nth)
  also have "(take i result @ [?c]) @ map (\<lambda>j. take k (drop (j * k) s)) [Suc i..<n] =
             take i result @ map (\<lambda>j. take k (drop (j * k) s)) [i..<n]"
    using i by (simp add: upt_conv_Cons)
  finally show ?case .
qed

text \<open>The result of \<^verbatim>\<open>Chunk\<close> in that range.\<close>

lemma nBatches_in_range:
  fixes k :: nat
  assumes k: "0 < k" and bound: "int L + int k - 1 \<le> max_int"
  shows "go_quo (wrap64 (wrap64 (int L + int k) - 1)) (int k) = int ((L + k - 1) div k)"
proof -
  have "1 \<le> L + k" using k by simp
  then have "int (L + k - 1) = int (L + k) - int 1" by (rule of_nat_diff)
  then have eq: "int L + int k - 1 = int (L + k - 1)" by simp
  have le: "int (L + k - 1) \<le> max_int" using bound unfolding eq .
  have "wrap64 (wrap64 (int L + int k) + (- 1)) = wrap64 (int L + int k + (- 1))"
    by (rule wrap64_add_left)
  then have "wrap64 (wrap64 (int L + int k) - 1) = wrap64 (int L + int k - 1)"
    by simp
  also have "\<dots> = wrap64 (int (L + k - 1))" unfolding eq ..
  also have "\<dots> = int (L + k - 1)" using le by (rule wrap64_of_nat)
  finally have "go_quo (wrap64 (wrap64 (int L + int k) - 1)) (int k) = go_quo (int (L + k - 1)) (int k)"
    by (rule arg_cong)
  also have "\<dots> = int (L + k - 1) div int k"
  proof (rule go_quo_nonneg)
    show "0 \<le> int (L + k - 1)" by (rule of_nat_0_le_iff)
    show "0 < int k" using k by simp
    show "int (L + k - 1) \<le> max_int" by (rule le)
  qed
  also have "\<dots> = int ((L + k - 1) div k)" by (simp only: zdiv_int)
  finally show ?thesis .
qed

lemma Chunk_in_range:
  fixes s :: "'a list" and k :: nat
  assumes k: "0 < k" and bound: "int (length s) + int k - 1 \<le> max_int"
    and room: "(length s + k - 1) div k \<le> maxLen"
  shows "Chunk maxLen s (int k) =
         Inr \<lparr>Chunks = chunks_of s k, ChunkSize = int k,
              Total = int (length s), Remainder = int (length s mod k)\<rparr>"
proof -
  define n where "n = (length s + k - 1) div k"
  have nb: "go_quo (wrap64 (wrap64 (int (length s) + int k) - 1)) (int k) = int n"
    unfolding n_def using k bound by (rule nBatches_in_range)
  have rem: "go_rem (int (length s)) (int k) = int (length s mod k)"
    using k by (simp add: go_rem_nonneg zmod_int)
  have run: "Chunk_loop s (int k) (int n) (int (length s mod k)) (int 0) (replicate n []) =
             Inr (take 0 (replicate n []) @ map (\<lambda>j. take k (drop (j * k) s)) [0..<n])"
    using k bound n_def by (rule Chunk_loop_run) simp_all
  have pos: "\<not> int k \<le> 0" using k by simp
  have nn: "\<not> alloc_fails maxLen (int n)" using room by (simp add: alloc_fails_def n_def)
  have "Chunk maxLen s (int k) =
        (case Chunk_loop s (int k) (int n) (int (length s mod k)) 0 (replicate n []) of
           Inl e \<Rightarrow> Inl e
         | Inr result \<Rightarrow>
             Inr \<lparr>Chunks = result, ChunkSize = int k,
                  Total = int (length s), Remainder = int (length s mod k)\<rparr>)"
    unfolding Chunk_def Let_def nb rem by (simp only: pos nn if_False nat_int)
  also have "\<dots> = Inr \<lparr>Chunks = map (\<lambda>j. take k (drop (j * k) s)) [0..<n], ChunkSize = int k,
                         Total = int (length s), Remainder = int (length s mod k)\<rparr>"
    using run by simp
  finally show ?thesis unfolding chunks_of_def n_def .
qed

subsection \<open>The chunks and Flatten\<close>

text \<open>
  The chunks concatenate to the input, and all have \<open>k\<close> elements except a shorter last
  one when \<open>k\<close> does not divide the length. \<^verbatim>\<open>Flatten\<close> is \<open>concat\<close> as long as the
  element count fits an \<^verbatim>\<open>int\<close>.
\<close>

lemma length_chunks_of: "length (chunks_of s k) = (length s + k - 1) div k"
  by (simp add: chunks_of_def)

lemma concat_chunks_upto:
  "concat (map (\<lambda>j. take k (drop (j * k) s)) [0..<n]) = take (n * k) s"
proof (induction n)
  case 0
  then show ?case by simp
next
  case (Suc n)
  have "take (n * k + k) s = take (n * k) s @ take k (drop (n * k) s)"
    by (rule take_add)
  then show ?case using Suc by (simp add: add.commute)
qed

lemma batches_cover:
  fixes L k :: nat
  assumes "0 < k"
  shows "L \<le> (L + k - 1) div k * k"
proof -
  have L: "L = L div k * k + L mod k" by simp
  show ?thesis
  proof (cases "L mod k = 0")
    case True
    then show ?thesis using ceil_div_nat [OF assms, of L] L by simp
  next
    case False
    have "L mod k < k" using assms by simp
    then have "L \<le> L div k * k + k" using L by linarith
    then show ?thesis using ceil_div_nat [OF assms, of L] False by simp
  qed
qed

lemma concat_chunks_of: "0 < k \<Longrightarrow> concat (chunks_of s k) = s"
  using batches_cover [of k "length s"] by (simp add: chunks_of_def concat_chunks_upto)

lemma length_chunk_nth:
  assumes k: "0 < k" and j: "j < (length s + k - 1) div k"
  shows "length (chunks_of s k ! j) =
           (if Suc j = (length s + k - 1) div k \<and> length s mod k \<noteq> 0 then length s mod k else k)"
proof -
  have nth: "chunks_of s k ! j = take k (drop (j * k) s)"
    using j by (simp add: chunks_of_def)
  have len: "length (chunks_of s k ! j) = min (length s - j * k) k"
    unfolding nth by simp
  show ?thesis
  proof (cases "Suc j = (length s + k - 1) div k \<and> length s mod k \<noteq> 0")
    case True
    then have "j * k + length s mod k = length s"
      using chunk_last_end [OF k, of j "length s"] by simp
    then have "length s - j * k = length s mod k" by linarith
    moreover have "length s mod k \<le> k" using k by (simp add: less_imp_le)
    ultimately have "length (chunks_of s k ! j) = length s mod k"
      unfolding len by simp
    moreover have "(if Suc j = (length s + k - 1) div k \<and> length s mod k \<noteq> 0
                    then length s mod k else k) = length s mod k"
      using True by (rule if_P)
    ultimately show ?thesis by (rule trans [OF _ sym])
  next
    case False
    then have "Suc j < (length s + k - 1) div k \<or> length s mod k = 0" using j by auto
    then have "j * k + k \<le> length s" by (rule chunk_full_end_in_range [OF k j])
    then have "k \<le> length s - j * k" by linarith
    then have "length (chunks_of s k ! j) = k" unfolding len by simp
    moreover have "(if Suc j = (length s + k - 1) div k \<and> length s mod k \<noteq> 0
                    then length s mod k else k) = k"
      using False by (rule if_not_P)
    ultimately show ?thesis by (rule trans [OF _ sym])
  qed
qed

lemma Flatten_loop_in_range:
  "int (length acc) + int (length (concat xss)) \<le> max_int \<Longrightarrow>
   length acc + length (concat xss) \<le> maxLen \<Longrightarrow>
   Flatten_loop maxLen xss acc = Inr (acc @ concat xss)"
proof (induction xss arbitrary: acc)
  case Nil
  then show ?case by simp
next
  case (Cons xs xss)
  let ?n = "int (length acc) + int (length xs)"
  have n_max: "?n \<le> max_int" using Cons.prems(1) by simp
  have "int (length acc + length xs) \<le> max_int" using n_max by simp
  then have "wrap64 (int (length acc + length xs)) = int (length acc + length xs)"
    by (rule wrap64_of_nat)
  then have w: "wrap64 ?n = int (length acc + length xs)" by simp
  have "length acc + length xs \<le> maxLen" using Cons.prems(2) by simp
  then have ok: "\<not> alloc_fails maxLen (wrap64 ?n)"
    unfolding w by (simp add: alloc_fails_def)
  have "Flatten_loop maxLen (xs # xss) acc = Flatten_loop maxLen xss (acc @ xs)"
    using ok by simp
  also have "\<dots> = Inr ((acc @ xs) @ concat xss)"
  proof (rule Cons.IH)
    show "int (length (acc @ xs)) + int (length (concat xss)) \<le> max_int"
      using Cons.prems(1) by simp
    show "length (acc @ xs) + length (concat xss) \<le> maxLen"
      using Cons.prems(2) by simp
  qed
  finally show ?case by simp
qed

lemma Flatten_count_in_range:
  "0 \<le> acc \<Longrightarrow> acc + int (length (concat xss)) \<le> max_int \<Longrightarrow>
   Flatten_count xss acc = acc + int (length (concat xss))"
proof (induction xss arbitrary: acc)
  case Nil
  then show ?case by simp
next
  case (Cons xs xss)
  let ?a = "acc + int (length xs)"
  have a0: "0 \<le> ?a" using Cons.prems by simp
  have a1: "?a + int (length (concat xss)) \<le> max_int" using Cons.prems by simp
  have "?a \<le> max_int" using a1 by linarith
  moreover have "min_int \<le> ?a" using a0 by (simp add: min_int_def)
  ultimately have w: "wrap64 ?a = ?a" by (intro wrap64_id)
  have "Flatten_count (xs # xss) acc = Flatten_count xss ?a" by (simp add: w)
  also have "\<dots> = ?a + int (length (concat xss))" using a0 a1 by (rule Cons.IH)
  finally show ?case by simp
qed

lemma Flatten_in_range:
  assumes b: "int (length (concat xss)) \<le> max_int" and room: "length (concat xss) \<le> maxLen"
  shows "Flatten maxLen xss = Inr (concat xss)"
proof -
  have "Flatten_count xss 0 = 0 + int (length (concat xss))"
    using b by (intro Flatten_count_in_range) simp_all
  then have cnt: "Flatten_count xss 0 = int (length (concat xss))" by simp
  have ok: "\<not> alloc_fails maxLen (int (length (concat xss)))"
    using room by (simp add: alloc_fails_def)
  have "Flatten_loop maxLen xss [] = Inr ([] @ concat xss)"
    using b room by (intro Flatten_loop_in_range) simp_all
  then show ?thesis unfolding Flatten_def Let_def cnt using ok by simp
qed

subsection \<open>The error value of Chunk\<close>

text \<open>
  The text of the error value starts with the decimal form of \<open>size\<close>, and the decimal
  form determines the number: the message identifies the rejected value.
\<close>

lemma digit_char_code: "n < 10 \<Longrightarrow> of_char (digit_char n) = 48 + n"
  by (simp add: digit_char_def)

lemma digit_char_inj: "a < 10 \<Longrightarrow> b < 10 \<Longrightarrow> digit_char a = digit_char b \<Longrightarrow> a = b"
proof -
  assume a: "a < 10" and b: "b < 10" and eq: "digit_char a = digit_char b"
  have "(of_char (digit_char a) :: nat) = of_char (digit_char b)" using eq by simp
  then have "48 + a = 48 + b" using a b by (simp only: digit_char_code)
  then show ?thesis by simp
qed

lemma digit_char_not_minus: "n < 10 \<Longrightarrow> digit_char n \<noteq> CHR ''-''"
proof
  assume n: "n < 10" and eq: "digit_char n = CHR ''-''"
  have "(of_char (digit_char n) :: nat) = of_char (CHR ''-'')" using eq by simp
  then have "48 + n = (45 :: nat)" using n by (simp add: digit_char_code)
  then show False by simp
qed

lemma digits_nonempty: "digits n \<noteq> []"
  by (subst digits.simps) simp

lemma digits_small: "n < 10 \<Longrightarrow> digits n = [digit_char n]"
  by (subst digits.simps) simp

lemma digits_large: "\<not> n < 10 \<Longrightarrow> digits n = digits (n div 10) @ [digit_char (n mod 10)]"
  by (subst digits.simps) simp

lemma digits_inj: "digits a = digits b \<Longrightarrow> a = b"
proof (induction a arbitrary: b rule: digits.induct)
  case (1 a)
  show ?case
  proof (cases "a < 10")
    case a: True
    show ?thesis
    proof (cases "b < 10")
      case True
      with a "1.prems" show ?thesis by (simp add: digits_small digit_char_inj)
    next
      case False
      then have "digits b = digits (b div 10) @ [digit_char (b mod 10)]" by (rule digits_large)
      with a "1.prems" have "[digit_char a] = digits (b div 10) @ [digit_char (b mod 10)]"
        by (simp add: digits_small)
      then have "digits (b div 10) = []" by simp
      then show ?thesis using digits_nonempty by blast
    qed
  next
    case a: False
    then have da: "digits a = digits (a div 10) @ [digit_char (a mod 10)]" by (rule digits_large)
    show ?thesis
    proof (cases "b < 10")
      case True
      with da "1.prems" have "digits (a div 10) @ [digit_char (a mod 10)] = [digit_char b]"
        by (simp add: digits_small)
      then have "digits (a div 10) = []" by simp
      then show ?thesis using digits_nonempty by blast
    next
      case False
      then have "digits b = digits (b div 10) @ [digit_char (b mod 10)]" by (rule digits_large)
      with da "1.prems" have hi: "digits (a div 10) = digits (b div 10)"
        and lo: "digit_char (a mod 10) = digit_char (b mod 10)" by simp_all
      have "a div 10 = b div 10" using a hi by (rule "1.IH")
      moreover have "a mod 10 = b mod 10" using lo by (intro digit_char_inj) simp_all
      ultimately show ?thesis by (metis div_mult_mod_eq)
    qed
  qed
qed

lemma hd_digits_not_minus: "hd (digits n) \<noteq> CHR ''-''"
proof (induction n rule: digits.induct)
  case (1 n)
  show ?case
  proof (cases "n < 10")
    case True
    then show ?thesis by (simp add: digits_small digit_char_not_minus)
  next
    case False
    then have "hd (digits n) = hd (digits (n div 10))"
      by (simp add: digits_large digits_nonempty)
    then show ?thesis using False "1.IH" by simp
  qed
qed

lemma fmt_d_inj: "fmt_d a = fmt_d b \<Longrightarrow> a = b"
proof -
  assume eq: "fmt_d a = fmt_d b"
  have neg_pos: "\<And>m n. CHR ''-'' # digits m \<noteq> digits n"
  proof
    fix m n assume "CHR ''-'' # digits m = digits n"
    then have "hd (digits n) = CHR ''-''" by (metis list.sel(1))
    then show False using hd_digits_not_minus by blast
  qed
  show ?thesis
  proof (cases "a < 0")
    case a: True
    show ?thesis
    proof (cases "b < 0")
      case True
      with a eq have "digits (nat (- a)) = digits (nat (- b))" by (simp add: fmt_d_def)
      then have "nat (- a) = nat (- b)" by (rule digits_inj)
      with a True show ?thesis by simp
    next
      case False
      with a eq have "CHR ''-'' # digits (nat (- a)) = digits (nat b)" by (simp add: fmt_d_def)
      then show ?thesis using neg_pos by blast
    qed
  next
    case a: False
    show ?thesis
    proof (cases "b < 0")
      case True
      with a eq have "CHR ''-'' # digits (nat (- b)) = digits (nat a)" by (simp add: fmt_d_def)
      then show ?thesis using neg_pos by blast
    next
      case False
      with a eq have "digits (nat a) = digits (nat b)" by (simp add: fmt_d_def)
      then have "nat a = nat b" by (rule digits_inj)
      with a False show ?thesis by simp
    qed
  qed
qed


lemma Chunk_invalid_size:
  "sz \<le> 0 \<Longrightarrow>
   Chunk maxLen s sz = Inl (InvalidArgument
     (fmt_d sz @ '' is not a valid chunk size, you must provide a positive integer''))"
  by (simp add: Chunk_def)

lemma Chunk_invalid_size_identified:
  assumes "sz \<le> 0" and "sz' \<le> 0" and "Chunk maxLen s sz = Chunk maxLen' s' sz'"
  shows "sz = sz'"
proof -
  have "fmt_d sz @ '' is not a valid chunk size, you must provide a positive integer'' =
        fmt_d sz' @ '' is not a valid chunk size, you must provide a positive integer''"
    using assms by (simp only: Chunk_invalid_size sum.inject fault.inject)
  then have "fmt_d sz = fmt_d sz'" by (simp only: append_same_eq)
  then show ?thesis by (rule fmt_d_inj)
qed


text \<open>
  A positive \<open>size\<close> never yields the error value: what is left is a result or a panic.
\<close>

lemma Chunk_loop_fault: "Chunk_loop s sz nBatches r i result = Inl e \<Longrightarrow> e = RuntimePanic"
proof (induction s sz nBatches r i result rule: Chunk_loop.induct)
  case (1 iterable sz nBatches remainder i result)
  show ?case
  proof (cases "i < nBatches")
    case False
    then show ?thesis using "1.prems" by (simp add: Chunk_loop_exit)
  next
    case True
    define start where "start = wrap64 (i * sz)"
    define end1 where "end1 = (if i = wrap64 (nBatches - 1) \<and> remainder > 0
                    then wrap64 (start + remainder) else wrap64 (start + sz))"
    have unf: "Chunk_loop iterable sz nBatches remainder i result =
       (case slice_expr iterable start end1 of
              Inl e \<Rightarrow> Inl e
            | Inr chunk \<Rightarrow>
                (if 0 \<le> i \<and> i < int (length result)
                 then Chunk_loop iterable sz nBatches remainder (i + 1) (result[nat i := chunk])
                 else Inl RuntimePanic))"
      apply (subst Chunk_loop.simps)
      apply (simp only: Let_def True if_True start_def end1_def)
      done
    show ?thesis
    proof (cases "slice_expr iterable start end1")
      case (Inl f)
      then have "f = RuntimePanic" by (simp add: slice_expr_def split: if_splits)
      with Inl unf "1.prems" show ?thesis by simp
    next
      case (Inr chunk)
      show ?thesis
      proof (cases "0 \<le> i \<and> i < int (length result)")
        case inside: True
        then have "Chunk_loop iterable sz nBatches remainder (i + 1) (result[nat i := chunk]) = Inl e"
          using unf "1.prems" Inr by simp
        then show ?thesis
          using "1.IH" [OF True refl refl refl Inr [unfolded end1_def start_def] inside]
          by blast
      next
        case False
        then have "(if 0 \<le> i \<and> i < int (length result)
                    then Chunk_loop iterable sz nBatches remainder (i + 1) (result[nat i := chunk])
                    else Inl RuntimePanic) = Inl RuntimePanic"
          by (rule if_not_P)
        then have "Chunk_loop iterable sz nBatches remainder i result = Inl RuntimePanic"
          using unf Inr by simp
        then show ?thesis using "1.prems" by simp
      qed
    qed
  qed
qed

lemma Chunk_positive_no_error_value:
  assumes "0 < sz"
  shows "Chunk maxLen s sz \<noteq> Inl (InvalidArgument m)"
proof
  assume eq: "Chunk maxLen s sz = Inl (InvalidArgument m)"
  define nBatches where "nBatches = go_quo (wrap64 (wrap64 (int (length s) + sz) - 1)) sz"
  define remainder where "remainder = go_rem (int (length s)) sz"
  have unf: "Chunk maxLen s sz =
      (if alloc_fails maxLen nBatches then Inl RuntimePanic
       else (case Chunk_loop s sz nBatches remainder 0 (replicate (nat nBatches) []) of
               Inl e \<Rightarrow> Inl e
             | Inr result \<Rightarrow>
                 Inr \<lparr>Chunks = result, ChunkSize = sz,
                      Total = int (length s), Remainder = remainder\<rparr>))"
    unfolding nBatches_def remainder_def Chunk_def Let_def using assms by simp
  show False
  proof (cases "alloc_fails maxLen nBatches")
    case True
    with unf eq show False by simp
  next
    case False
    show False
    proof (cases "Chunk_loop s sz nBatches remainder 0 (replicate (nat nBatches) [])")
      case (Inl e)
      then have "e = RuntimePanic" by (rule Chunk_loop_fault)
      with Inl unf eq False show False by simp
    next
      case (Inr result)
      with unf eq False show False by simp
    qed
  qed
qed

text \<open>
  For a positive \<open>size\<close> with \<open>len(s) + size - 1 \<le> 2 ^ 63 - 1\<close> and a number of
  chunks the runtime can allocate, \<^verbatim>\<open>Chunk\<close> returns a result whose chunks flatten to
  \<open>s\<close>, with the rounded-up number of chunks, full chunks
  before the last, the last of \<open>len(s) mod size\<close> elements when that is not zero and of
  \<open>size\<close> elements otherwise, \<open>Total = len(s)\<close> and \<open>Remainder = len(s) mod size\<close>.
\<close>

lemma batches_int:
  fixes k :: nat
  assumes "0 < k"
  shows "int ((L + k - 1) div k) = (int L + int k - 1) div int k"
proof -
  have "1 \<le> L + k" using assms by simp
  then have "int (L + k - 1) = int (L + k) - int 1" by (rule of_nat_diff)
  then show ?thesis by (simp add: zdiv_int)
qed

lemma Chunk_positive_in_range:
  assumes sz: "0 < sz" and bound: "int (length s) + sz - 1 \<le> max_int"
    and room: "(int (length s) + sz - 1) div sz \<le> int maxLen"
  shows "Chunk maxLen s sz =
         Inr \<lparr>Chunks = chunks_of s (nat sz), ChunkSize = sz,
              Total = int (length s), Remainder = int (length s) mod sz\<rparr>"
proof -
  define k where "k = nat sz"
  have ik: "int k = sz" and k: "0 < k" using sz by (simp_all add: k_def)
  have b: "int (length s) + int k - 1 \<le> max_int" using bound unfolding ik .
  have "int ((length s + k - 1) div k) \<le> int maxLen"
    using room unfolding batches_int [OF k] ik .
  then have r: "(length s + k - 1) div k \<le> maxLen" by (simp only: of_nat_le_iff)
  have "int (length s mod k) = int (length s) mod int k" by (rule zmod_int)
  then show ?thesis using Chunk_in_range [OF k b r] unfolding ik by (simp only: k_def)
qed

lemma Chunk_roundtrip_in_range:
  assumes sz: "0 < sz" and bound: "int (length s) + sz - 1 \<le> max_int"
    and room: "(int (length s) + sz - 1) div sz \<le> int maxLen"
    and room_flat: "length s \<le> maxLenT"
  shows "\<exists>r. Chunk maxLen s sz = Inr r \<and> Flatten maxLenT (Chunks r) = Inr s"
proof -
  have cat: "concat (chunks_of s (nat sz)) = s" using sz by (simp add: concat_chunks_of)
  have "int (length s) \<le> max_int" using sz bound by linarith
  then have "Flatten maxLenT (chunks_of s (nat sz)) = Inr s"
    using Flatten_in_range [of "chunks_of s (nat sz)" maxLenT] room_flat unfolding cat by blast
  then show ?thesis using Chunk_positive_in_range [OF sz bound room] by simp
qed

lemma Chunk_shape_in_range:
  assumes sz: "0 < sz" and bound: "int (length s) + sz - 1 \<le> max_int"
    and room: "(int (length s) + sz - 1) div sz \<le> int maxLen"
  shows "\<exists>r. Chunk maxLen s sz = Inr r \<and>
           int (length (Chunks r)) = (int (length s) + sz - 1) div sz \<and>
           (\<forall>j. Suc j < length (Chunks r) \<longrightarrow> int (length (Chunks r ! j)) = sz) \<and>
           (Chunks r \<noteq> [] \<longrightarrow>
              int (length (last (Chunks r))) =
                (if int (length s) mod sz \<noteq> 0 then int (length s) mod sz else sz)) \<and>
           Total r = int (length s) \<and> Remainder r = int (length s) mod sz"
proof -
  define k where "k = nat sz"
  define n where "n = (length s + k - 1) div k"
  have ik: "int k = sz" and k: "0 < k" using sz by (simp_all add: k_def)
  let ?cs = "chunks_of s k"
  have len: "length ?cs = n" by (simp add: length_chunks_of n_def)
  have "int ((length s + k - 1) div k) = (int (length s) + int k - 1) div int k"
    using k by (rule batches_int)
  then have count: "int (length ?cs) = (int (length s) + sz - 1) div sz"
    unfolding len n_def ik .
  have rmod: "int (length s mod k) = int (length s) mod sz"
    unfolding ik [symmetric] by (rule zmod_int)
  have full: "\<forall>j. Suc j < length ?cs \<longrightarrow> int (length (?cs ! j)) = sz"
  proof (intro allI impI)
    fix j assume "Suc j < length ?cs"
    then have j: "j < (length s + k - 1) div k" and nl: "Suc j \<noteq> (length s + k - 1) div k"
      unfolding len n_def by simp_all
    have "length (?cs ! j) = k" using length_chunk_nth [OF k j] nl by simp
    then show "int (length (?cs ! j)) = sz" using ik by simp
  qed
  have lastc: "?cs \<noteq> [] \<longrightarrow>
      int (length (last ?cs)) = (if int (length s) mod sz \<noteq> 0 then int (length s) mod sz else sz)"
  proof
    assume ne: "?cs \<noteq> []"
    then have "0 < length ?cs" by simp
    then have n0: "0 < n" unfolding len .
    then have j: "n - 1 < (length s + k - 1) div k" and sj: "Suc (n - 1) = (length s + k - 1) div k"
      unfolding n_def by simp_all
    have "last ?cs = ?cs ! (n - 1)" using ne len by (simp add: last_conv_nth)
    then have "length (last ?cs) = (if length s mod k \<noteq> 0 then length s mod k else k)"
      using length_chunk_nth [OF k j] sj by simp
    then have "int (length (last ?cs)) =
        (if int (length s mod k) \<noteq> 0 then int (length s mod k) else int k)"
      by simp
    then show "int (length (last ?cs)) =
        (if int (length s) mod sz \<noteq> 0 then int (length s) mod sz else sz)"
      unfolding rmod ik .
  qed
  have "Chunk maxLen s sz = Inr \<lparr>Chunks = ?cs, ChunkSize = sz,
              Total = int (length s), Remainder = int (length s) mod sz\<rparr>"
    using Chunk_positive_in_range [OF sz bound room] unfolding k_def .
  then show ?thesis using count full lastc by simp
qed


subsection \<open>Chunk where the batch count wraps around\<close>

text \<open>The arithmetic of \<^verbatim>\<open>Chunk\<close> at the largest \<^verbatim>\<open>int\<close>, for four and for two elements.\<close>

lemma max_int_positive: "\<not> max_int \<le> 0"
  by code_simp

lemma nBatches_four: "go_quo (wrap64 (wrap64 (4 + max_int) - 1)) max_int = 0"
  by code_simp

lemma nBatches_two: "go_quo (wrap64 (wrap64 (2 + max_int) - 1)) max_int = - 1"
  by code_simp

lemma remainder_four: "go_rem 4 max_int = 4"
  by code_simp

lemma Chunk_four_overflow:
  assumes "length s = 4"
  shows "Chunk maxLen s max_int =
           Inr \<lparr>Chunks = [], ChunkSize = max_int, Total = 4, Remainder = 4\<rparr>"
proof -
  have ok: "\<not> alloc_fails maxLen 0" by (simp add: alloc_fails_def)
  have loop: "Chunk_loop s max_int 0 4 0 [] = Inr []" by (simp add: Chunk_loop_exit)
  show ?thesis
    unfolding Chunk_def Let_def assms
    by (simp add: max_int_positive nBatches_four remainder_four ok loop)
qed

text \<open>
  C1 asks that for every non-empty \<open>s\<close> and positive \<open>k\<close>, \<open>Chunk(s, k)\<close> succeeds and
  \<open>Flatten\<close> of its chunks is \<open>s\<close>. At \<open>s = [1, 2, 3, 4]\<close> and \<open>k = 2 ^ 63 - 1\<close> the
  sum \<^verbatim>\<open>itemCount + size - 1\<close> wraps around to \<open>- (2 ^ 63 - 2)\<close>, the quotient
  \<^verbatim>\<open>nBatches\<close> is \<open>0\<close>, and \<open>Chunk\<close> returns no chunks: \<open>Flatten\<close> of them is the
  empty sequence, not \<open>s\<close>. This is so whatever the runtime can allocate.
\<close>

theorem Chunk_roundtrip_overflow:
  "\<exists>r. Chunk maxLen [1, 2, 3, 4 :: int] max_int = Inr r \<and>
       Flatten maxLenT (Chunks r) = Inr [] \<and>
       Flatten maxLenT (Chunks r) \<noteq> Inr [1, 2, 3, 4]"
proof -
  have "Chunk maxLen [1, 2, 3, 4 :: int] max_int =
          Inr \<lparr>Chunks = [], ChunkSize = max_int, Total = 4, Remainder = 4\<rparr>"
    by (rule Chunk_four_overflow) simp
  moreover have "Flatten maxLenT ([] :: int list list) = Inr []"
    by (simp add: Flatten_def alloc_fails_def)
  ultimately show ?thesis by simp
qed

text \<open>
  C2 asks for \<open>ceil(len(s) / size)\<close> chunks for every positive \<open>size\<close>. Four elements
  and \<open>size = 2 ^ 63 - 1\<close> should give one chunk of four elements; the code returns a
  result with no chunk at all, \<open>Total = 4\<close> and \<open>Remainder = 4\<close>.
\<close>

theorem Chunk_shape_overflow:
  "Chunk maxLen [''a'', ''b'', ''c'', ''d''] 9223372036854775807 =
     Inr \<lparr>Chunks = [], ChunkSize = 9223372036854775807, Total = 4, Remainder = 4\<rparr>"
proof -
  have m: "max_int = 9223372036854775807" by code_simp
  have "Chunk maxLen [''a'', ''b'', ''c'', ''d''] max_int =
          Inr \<lparr>Chunks = [], ChunkSize = max_int, Total = 4, Remainder = 4\<rparr>"
    by (rule Chunk_four_overflow) simp
  then show ?thesis unfolding m .
qed

text \<open>
  C3 asks that \<open>Chunk(s, k)\<close> never fails for \<open>k > 0\<close>. With two elements and
  \<open>k = 2 ^ 63 - 1\<close> the wrapped sum is \<open>- 2 ^ 63\<close>, \<^verbatim>\<open>nBatches\<close> is \<open>- 1\<close>, and
  \<^verbatim>\<open>make([][]T, nBatches)\<close> panics.
\<close>

theorem Chunk_positive_size_panics:
  "0 < max_int \<and> Chunk maxLen [1, 2 :: int] max_int = Inl RuntimePanic"
proof -
  have bad: "alloc_fails maxLen (- 1)" by (simp add: alloc_fails_def)
  have "Chunk maxLen [1, 2 :: int] max_int = Inl RuntimePanic"
    unfolding Chunk_def Let_def
    by (simp add: max_int_positive nBatches_two bad)
  then show ?thesis using max_int_positive by simp
qed

end
